theory Spec2Isabelle
  imports Complex_Main
begin

section \<open>Values shared by the two scripts\<close>

text \<open>
  The repository holds two scripts, \<^verbatim>\<open>scripts/generate_shadow.py\<close> and
  \<^verbatim>\<open>scripts/generate_spritesheet.py\<close>. Both build an RGBA image with Pillow and save it.
  Python integers are \<open>int\<close>, Python floats are the reals that a binary64 number can hold
  (with every operation rounded, see below), a colour is a 4-tuple of integers, and an
  uncaught exception is a value of type \<open>error\<close>.
\<close>

type_synonym rgba = "int \<times> int \<times> int \<times> int"

type_synonym path = "string list"

type_synonym bytes = "nat list"

datatype error =
    ZeroDivisionError
  | KeyError
  | OSError
  | FileNotFoundError
  | NotADirectoryError
  | IsADirectoryError
  | PermissionError
  | UnidentifiedImageError

definition alpha :: "rgba \<Rightarrow> int" where
  "alpha c = (case c of (r, g, b, a) \<Rightarrow> a)"

subsection \<open>Binary64 arithmetic\<close>

text \<open>
  A Python float is an IEEE 754 binary64 number. Every arithmetic operation returns the
  exact result rounded to the nearest representable number, ties to the even significand.
  \<open>expo x\<close> is the exponent of the binade of \<open>x\<close> (not below the subnormal range), \<open>ulp x\<close>
  the spacing of the representable numbers there, \<open>rnd x\<close> the rounded value. Infinities
  and NaN are left out: no value of the scripts comes near \<open>2 ^ 1024\<close>.
\<close>

definition round_half_even :: "real \<Rightarrow> int" where
  "round_half_even r =
     (let f = \<lfloor>r\<rfloor> in
      if r - of_int f < 1 / 2 then f
      else if 1 / 2 < r - of_int f then f + 1
      else if even f then f else f + 1)"

definition expo :: "real \<Rightarrow> int" where
  "expo x = max \<lfloor>log 2 \<bar>x\<bar>\<rfloor> (- 1022)"

definition ulp :: "real \<Rightarrow> real" where
  "ulp x = 2 powi (expo x - 52)"

definition rnd :: "real \<Rightarrow> real" where
  "rnd x = (if x = 0 then 0 else of_int (round_half_even (x / ulp x)) * ulp x)"

definition py_float :: "int \<Rightarrow> real" where
  "py_float i = rnd (of_int i)"

definition fadd :: "real \<Rightarrow> real \<Rightarrow> real" where
  "fadd x y = rnd (x + y)"

definition fsub :: "real \<Rightarrow> real \<Rightarrow> real" where
  "fsub x y = rnd (x - y)"

definition fmul :: "real \<Rightarrow> real \<Rightarrow> real" where
  "fmul x y = rnd (x * y)"

text \<open>\<^verbatim>\<open>a / b\<close> on two Python integers: the correctly rounded quotient, or ZeroDivisionError.\<close>

definition truediv :: "int \<Rightarrow> int \<Rightarrow> error + real" where
  "truediv a b = (if b = 0 then Inl ZeroDivisionError else Inr (rnd (of_int a / of_int b)))"

text \<open>
  The \<^verbatim>\<open>math\<close> module. \<^verbatim>\<open>math.pi\<close> is the binary64 number nearest to \<open>pi\<close>,
  \<open>884279719003555 / 2 ^ 48\<close>. \<^verbatim>\<open>math.radians(x)\<close> is \<^verbatim>\<open>x * (pi / 180)\<close> in binary64.
  \<^verbatim>\<open>math.sin\<close> and \<^verbatim>\<open>math.cos\<close> call the C library; they are taken as correctly rounded.
\<close>

definition math_pi :: real where
  "math_pi = 884279719003555 / 2 ^ 48"

definition degToRad :: real where
  "degToRad = rnd (math_pi / 180)"

definition math_radians :: "real \<Rightarrow> real" where
  "math_radians x = fmul x degToRad"

definition math_sin :: "real \<Rightarrow> real" where
  "math_sin x = rnd (sin x)"

definition math_cos :: "real \<Rightarrow> real" where
  "math_cos x = rnd (cos x)"

subsection \<open>Strings\<close>

text \<open>\<^verbatim>\<open>str(n)\<close> and the f-string \<^verbatim>\<open>f"{n}"\<close> of an integer: its decimal digits.\<close>

fun str_nat :: "nat \<Rightarrow> string" where
  "str_nat n =
     (if n < 10 then [''0123456789'' ! n]
      else str_nat (n div 10) @ [''0123456789'' ! (n mod 10)])"

definition str_int :: "int \<Rightarrow> string" where
  "str_int i = (if i < 0 then CHR ''-'' # str_nat (nat (- i)) else str_nat (nat i))"

text \<open>\<^verbatim>\<open>str\<close> of a pair of integers, as \<^verbatim>\<open>f"{sprite_sheet.size}"\<close> prints it.\<close>

definition str_pair :: "int \<times> int \<Rightarrow> string" where
  "str_pair p = ''('' @ str_int (fst p) @ '', '' @ str_int (snd p) @ '')''"

subsection \<open>Images\<close>

text \<open>
  A Pillow image: its size, its mode and its pixels. Only the pixels \<open>(x, y)\<close> with
  \<open>0 \<le> x < width\<close> and \<open>0 \<le> y < height\<close> belong to the image.
\<close>

record image =
  im_size :: "int \<times> int"
  im_mode :: string
  im_pixels :: "int \<times> int \<Rightarrow> rgba"

definition Image_new :: "string \<Rightarrow> int \<times> int \<Rightarrow> rgba \<Rightarrow> image" where
  "Image_new mode sz color = \<lparr>im_size = sz, im_mode = mode, im_pixels = (\<lambda>p. color)\<rparr>"

definition in_image :: "image \<Rightarrow> int \<times> int \<Rightarrow> bool" where
  "in_image im p = (0 \<le> fst p \<and> fst p < fst (im_size im) \<and> 0 \<le> snd p \<and> snd p < snd (im_size im))"

definition in_box :: "int \<times> int \<times> int \<times> int \<Rightarrow> int \<times> int \<Rightarrow> bool" where
  "in_box box p =
     (case box of (x0, y0, x1, y1) \<Rightarrow> x0 \<le> fst p \<and> fst p \<le> x1 \<and> y0 \<le> snd p \<and> snd p \<le> y1)"

text \<open>
  An \<^verbatim>\<open>ImageDraw\<close> object on an RGBA image replaces the pixels it draws (no blending),
  and clips to the image.
\<close>

definition set_pixels :: "(int \<times> int \<Rightarrow> bool) \<Rightarrow> rgba \<Rightarrow> image \<Rightarrow> image" where
  "set_pixels msk ink im =
     im\<lparr>im_pixels := (\<lambda>p. if in_image im p \<and> msk p then ink else im_pixels im p)\<rparr>"

text \<open>The C cast \<^verbatim>\<open>(int)\<close> of a double: truncation towards zero.\<close>

definition c_int :: "real \<Rightarrow> int" where
  "c_int x = (if 0 \<le> x then \<lfloor>x\<rfloor> else \<lceil>x\<rceil>)"

datatype 'f font = Truetype 'f int | Default_font

text \<open>
  Pillow's scan converters and its text renderer are not part of the repository; they are
  parameters of the model:
  \<^item> \<open>ellipse_scan box fill width\<close>: the pixels \<^verbatim>\<open>ImagingDrawEllipse\<close> sets for the integer
    bounding box \<open>box = (x0, y0, x1, y1)\<close>, filled or as an outline of the given width;
  \<^item> \<open>wide_line_scan (x0, y0, x1, y1) width\<close>: the pixels \<^verbatim>\<open>ImagingDrawWideLine\<close> sets for
    the segment from \<open>(x0, y0)\<close> to \<open>(x1, y1)\<close>;
  \<^item> \<open>text_extent font s\<close>: the box, relative to the anchor, that holds the rendered string;
  \<^item> \<open>text_paste font s ink d old\<close>: the pixel at offset \<open>d\<close> from the anchor after the
    string's mask has been pasted in colour \<open>ink\<close> over the pixel \<open>old\<close>;
  \<^item> \<open>png_encode im\<close>: the bytes of the PNG file that \<^verbatim>\<open>save\<close> writes for an image when it
    is called, as both scripts call it, with no parameter beyond the name and the format.
    Pillow's writer is then a function of the image: it adds a time chunk or a text chunk
    only when it is handed one;
  \<^item> \<open>png_header bs\<close>: the size and the mode that \<^verbatim>\<open>Image.open\<close> reads from the head of a
    file, or \<open>None\<close> when the bytes are not an image. \<^verbatim>\<open>Image.open\<close> decodes no pixel.
\<close>

record 'f pillow =
  ellipse_scan :: "int \<times> int \<times> int \<times> int \<Rightarrow> bool \<Rightarrow> int \<Rightarrow> int \<times> int \<Rightarrow> bool"
  wide_line_scan :: "int \<times> int \<times> int \<times> int \<Rightarrow> int \<Rightarrow> int \<times> int \<Rightarrow> bool"
  text_extent :: "'f font \<Rightarrow> string \<Rightarrow> int \<times> int \<times> int \<times> int"
  text_paste :: "'f font \<Rightarrow> string \<Rightarrow> rgba \<Rightarrow> int \<times> int \<Rightarrow> rgba \<Rightarrow> rgba"
  png_encode :: "image \<Rightarrow> bytes"
  png_header :: "bytes \<Rightarrow> ((int \<times> int) \<times> string) option"

text \<open>
  \<^verbatim>\<open>draw.ellipse(xy, fill=..., outline=..., width=...)\<close>: the coordinates are cast to
  \<^verbatim>\<open>int\<close>, the interior is drawn in the fill colour, then the outline when one is given,
  differs from the fill and has a width.
\<close>

definition Draw_ellipse ::
  "'f pillow \<Rightarrow> real \<times> real \<times> real \<times> real \<Rightarrow> rgba \<Rightarrow> rgba option \<Rightarrow> int \<Rightarrow> image \<Rightarrow> image" where
  "Draw_ellipse L xy fill outline width im =
     (case xy of (x0, y0, x1, y1) \<Rightarrow>
        let box = (c_int x0, c_int y0, c_int x1, c_int y1);
            im1 = set_pixels (ellipse_scan L box True 0) fill im
        in case outline of
             None \<Rightarrow> im1
           | Some ink \<Rightarrow>
               if ink \<noteq> fill \<and> width \<noteq> 0
               then set_pixels (ellipse_scan L box False width) ink im1
               else im1)"

text \<open>\<^verbatim>\<open>draw.line([(x0, y0), (x1, y1)], fill=..., width=...)\<close> with a width above 1.\<close>

definition Draw_line ::
  "'f pillow \<Rightarrow> (real \<times> real) \<times> (real \<times> real) \<Rightarrow> rgba \<Rightarrow> int \<Rightarrow> image \<Rightarrow> image" where
  "Draw_line L xy fill width im =
     (case xy of ((x0, y0), (x1, y1)) \<Rightarrow>
        set_pixels (wide_line_scan L (c_int x0, c_int y0, c_int x1, c_int y1) width) fill im)"

text \<open>\<^verbatim>\<open>draw.text((x, y), s, fill=..., font=...)\<close>: the string's mask is pasted at the anchor.\<close>

definition Draw_text ::
  "'f pillow \<Rightarrow> int \<times> int \<Rightarrow> string \<Rightarrow> rgba \<Rightarrow> 'f font \<Rightarrow> image \<Rightarrow> image" where
  "Draw_text L xy s fill fnt im =
     im\<lparr>im_pixels := (\<lambda>p.
         if in_image im p
         then text_paste L fnt s fill (fst p - fst xy, snd p - snd xy) (im_pixels im p)
         else im_pixels im p)\<rparr>"

text \<open>
  What the model asks of Pillow: an ellipse stays inside its bounding box, a wide line
  inside the box spanned by its end points grown by its width, a rendered string inside
  its extent; and a filled ellipse at least two pixels wide and high covers the centre of
  its box.
\<close>

definition line_box :: "int \<times> int \<times> int \<times> int \<Rightarrow> int \<Rightarrow> int \<times> int \<times> int \<times> int" where
  "line_box seg width =
     (case seg of (x0, y0, x1, y1) \<Rightarrow>
        (min x0 x1 - width, min y0 y1 - width, max x0 x1 + width, max y0 y1 + width))"

definition pillow_ok :: "'f pillow \<Rightarrow> bool" where
  "pillow_ok L =
     ((\<forall>box fill width p. ellipse_scan L box fill width p \<longrightarrow> in_box box p) \<and>
      (\<forall>seg width p. wide_line_scan L seg width p \<longrightarrow> in_box (line_box seg width) p) \<and>
      (\<forall>fnt s ink d old. \<not> in_box (text_extent L fnt s) d \<longrightarrow> text_paste L fnt s ink d old = old) \<and>
      (\<forall>x0 y0 x1 y1. x0 + 2 \<le> x1 \<and> y0 + 2 \<le> y1 \<longrightarrow>
          ellipse_scan L (x0, y0, x1, y1) True 0 ((x0 + x1) div 2, (y0 + y1) div 2)))"

subsection \<open>The file system, the fonts and the console\<close>

text \<open>
  The world a script runs in: the working directory, the directories and the files that
  exist (paths as lists of components from the root, which always exists; a file is its
  bytes), the error, if any, with which the operating system refuses to write or to read a
  file (PermissionError for a read-only file or an unwritable directory, OSError for a
  full disk), what \<^verbatim>\<open>ImageFont.truetype\<close> finds for a font name and a size, the time of day
  and the state of the random source, and the lines printed so far.
\<close>

record 'f world =
  cwd :: path
  dirs :: "path set"
  files :: "path \<rightharpoonup> bytes"
  write_error :: "path \<Rightarrow> error option"
  read_error :: "path \<Rightarrow> error option"
  truetype :: "string \<Rightarrow> int \<Rightarrow> error + 'f"
  clock :: nat
  entropy :: "nat list"
  stdout :: "string list"

datatype 'f outcome = Done "'f world" | Uncaught error "'f world"

fun split_path :: "string \<Rightarrow> string list" where
  "split_path [] = [[]]"
| "split_path (c # cs) =
     (if c = CHR ''/'' then [] # split_path cs
      else (case split_path cs of [] \<Rightarrow> [[c]] | s # ss \<Rightarrow> (c # s) # ss))"

fun walk :: "path \<Rightarrow> string list \<Rightarrow> path" where
  "walk base [] = base"
| "walk base (c # cs) =
     (if c = [] \<or> c = ''.'' then walk base cs
      else if c = ''..'' then walk (butlast base) cs
      else walk (base @ [c]) cs)"

definition resolve :: "path \<Rightarrow> string \<Rightarrow> path" where
  "resolve wd p = walk (if p \<noteq> [] \<and> hd p = CHR ''/'' then [] else wd) (split_path p)"

definition is_dir :: "'f world \<Rightarrow> path \<Rightarrow> bool" where
  "is_dir w p = (p = [] \<or> p \<in> dirs w)"

text \<open>The world a run leaves behind, however it ends.\<close>

fun world_after :: "'f outcome \<Rightarrow> 'f world" where
  "world_after (Done w) = w"
| "world_after (Uncaught e w) = w"

definition print_line :: "string \<Rightarrow> 'f world \<Rightarrow> 'f world" where
  "print_line s w = w\<lparr>stdout := stdout w @ [s]\<rparr>"

text \<open>
  Walking down from \<open>base\<close> through the components \<open>cs\<close>: the error of the first component
  that is not a directory (NotADirectoryError when a file has that name, FileNotFoundError
  when nothing has), or \<open>None\<close> when every component is a directory.
\<close>

fun first_missing :: "'f world \<Rightarrow> path \<Rightarrow> string list \<Rightarrow> error option" where
  "first_missing w base [] = None"
| "first_missing w base (c # cs) =
     (if is_dir w (base @ [c]) then first_missing w (base @ [c]) cs
      else if files w (base @ [c]) \<noteq> None then Some NotADirectoryError
      else Some FileNotFoundError)"

definition lookup_dir :: "'f world \<Rightarrow> path \<Rightarrow> error option" where
  "lookup_dir w p = first_missing w [] p"

text \<open>
  \<^verbatim>\<open>image.save(path)\<close> opens the file for writing and writes the encoded image: it fails
  when the directory of the path cannot be reached, when the path is a directory, or when
  the operating system refuses the write; otherwise it creates or replaces the file.
  \<^verbatim>\<open>Image.open(path)\<close> opens the file for reading and identifies the image from its head.
\<close>

definition Image_save :: "'f pillow \<Rightarrow> image \<Rightarrow> string \<Rightarrow> 'f world \<Rightarrow> error + 'f world" where
  "Image_save L im p w =
     (let full = resolve (cwd w) p in
      if full = [] then Inl IsADirectoryError
      else case lookup_dir w (butlast full) of
             Some e \<Rightarrow> Inl e
           | None \<Rightarrow>
               if is_dir w full then Inl IsADirectoryError
               else case write_error w full of
                      Some e \<Rightarrow> Inl e
                    | None \<Rightarrow> Inr (w\<lparr>files := (files w)(full \<mapsto> png_encode L im)\<rparr>))"

definition Image_open ::
  "'f pillow \<Rightarrow> string \<Rightarrow> 'f world \<Rightarrow> error + (int \<times> int) \<times> string" where
  "Image_open L p w =
     (let full = resolve (cwd w) p in
      if full = [] then Inl IsADirectoryError
      else case lookup_dir w (butlast full) of
             Some e \<Rightarrow> Inl e
           | None \<Rightarrow>
               if is_dir w full then Inl IsADirectoryError
               else case files w full of
                      None \<Rightarrow> Inl FileNotFoundError
                    | Some bs \<Rightarrow>
                        (case read_error w full of
                           Some e \<Rightarrow> Inl e
                         | None \<Rightarrow>
                             (case png_header L bs of
                                None \<Rightarrow> Inl UnidentifiedImageError
                              | Some h \<Rightarrow> Inr h)))"

definition ImageFont_truetype :: "string \<Rightarrow> int \<Rightarrow> 'f world \<Rightarrow> error + 'f font" where
  "ImageFont_truetype name sz w =
     (case truetype w name sz of Inl e \<Rightarrow> Inl e | Inr f \<Rightarrow> Inr (Truetype f sz))"

definition ImageFont_load_default :: "'f font" where
  "ImageFont_load_default = Default_font"

section \<open>generate_shadow.py\<close>

definition size_shadow :: "int \<times> int" where
  "size_shadow = (96, 96)"

definition shadow_color :: rgba where
  "shadow_color = (0, 0, 0, 100)"

definition shadow_bbox :: "int \<times> int \<times> int \<times> int" where
  "shadow_bbox = (20, 55, 76, 85)"

definition image_shadow :: "'f pillow \<Rightarrow> image" where
  "image_shadow L =
     (case shadow_bbox of (l, t, r, b) \<Rightarrow>
        Draw_ellipse L (py_float l, py_float t, py_float r, py_float b) shadow_color None 1
          (Image_new ''RGBA'' size_shadow (0, 0, 0, 0)))"

definition generate_shadow :: "'f pillow \<Rightarrow> 'f world \<Rightarrow> 'f outcome" where
  "generate_shadow L w =
     (case Image_save L (image_shadow L) ''../public/shadow.png'' w of
        Inl e \<Rightarrow> Uncaught e w
      | Inr w1 \<Rightarrow> Done (print_line ''Shadow sprite generated: public/shadow.png'' w1))"

section \<open>generate_spritesheet.py\<close>

definition FRAME_WIDTH :: int where
  "FRAME_WIDTH = 96"

definition FRAME_HEIGHT :: int where
  "FRAME_HEIGHT = 96"

definition COLUMNS :: int where
  "COLUMNS = 6"

definition ROWS :: int where
  "ROWS = 8"

definition SPRITE_SHEET_WIDTH :: int where
  "SPRITE_SHEET_WIDTH = FRAME_WIDTH * COLUMNS"

definition SPRITE_SHEET_HEIGHT :: int where
  "SPRITE_SHEET_HEIGHT = FRAME_HEIGHT * ROWS"

definition DIRECTIONS :: "string list" where
  "DIRECTIONS =
     [''South'', ''South-East'', ''East'', ''North-East'',
      ''North'', ''North-West'', ''West'', ''South-West'']"

text \<open>The dictionary literal \<^verbatim>\<open>angle_map\<close>, in the order it is written.\<close>

definition angle_map :: "(int \<times> int) list" where
  "angle_map = [(0, 90), (1, 45), (2, 0), (3, 315), (4, 270), (5, 225), (6, 180), (7, 135)]"

text \<open>\<^verbatim>\<open>d[k]\<close> on a dictionary: the value, or KeyError.\<close>

definition getitem :: "('k \<times> 'v) list \<Rightarrow> 'k \<Rightarrow> error + 'v" where
  "getitem d k = (case map_of d k of None \<Rightarrow> Inl KeyError | Some v \<Rightarrow> Inr v)"

text \<open>\<^verbatim>\<open>range(n)\<close> and \<^verbatim>\<open>enumerate(xs)\<close>.\<close>

definition range_py :: "int \<Rightarrow> int list" where
  "range_py n = map int [0..<nat n]"

definition enumerate_py :: "'a list \<Rightarrow> (int \<times> 'a) list" where
  "enumerate_py xs = zip (map int [0..<length xs]) xs"

text \<open>A \<^verbatim>\<open>for\<close> loop whose body may raise: the first exception ends the loop.\<close>

fun for_each :: "('a \<Rightarrow> 's \<Rightarrow> error + 's) \<Rightarrow> 'a list \<Rightarrow> 's \<Rightarrow> error + 's" where
  "for_each body [] s = Inr s"
| "for_each body (x # xs) s =
     (case body x s of Inl e \<Rightarrow> Inl e | Inr s1 \<Rightarrow> for_each body xs s1)"

text \<open>The local variables of the loop body, as functions of \<^verbatim>\<open>row\<close> and \<^verbatim>\<open>col\<close>.\<close>

definition center_x :: "int \<Rightarrow> int" where
  "center_x col = col * FRAME_WIDTH + FRAME_WIDTH div 2"

definition center_y :: "int \<Rightarrow> int" where
  "center_y row = row * FRAME_HEIGHT + FRAME_HEIGHT div 2"

definition animation_offset :: "int \<Rightarrow> error + real" where
  "animation_offset col =
     (case truediv col COLUMNS of
        Inl e \<Rightarrow> Inl e
      | Inr q \<Rightarrow> Inr (fmul (math_sin (fmul (fmul q math_pi) (py_float 2))) (py_float 3)))"

definition body_radius :: "int \<Rightarrow> error + real" where
  "body_radius col =
     (case animation_offset col of
        Inl e \<Rightarrow> Inl e
      | Inr a \<Rightarrow> Inr (fadd (py_float 25) a))"

definition arrow_length :: int where
  "arrow_length = 15"

definition angle_rad :: "int \<Rightarrow> error + real" where
  "angle_rad row =
     (case getitem angle_map row of
        Inl e \<Rightarrow> Inl e
      | Inr angle_deg \<Rightarrow> Inr (math_radians (py_float angle_deg)))"

definition arrow_x :: "int \<Rightarrow> int \<Rightarrow> error + real" where
  "arrow_x row col =
     (case angle_rad row of
        Inl e \<Rightarrow> Inl e
      | Inr a \<Rightarrow> Inr (fadd (py_float (center_x col)) (fmul (math_cos a) (py_float arrow_length))))"

definition arrow_y :: "int \<Rightarrow> int \<Rightarrow> error + real" where
  "arrow_y row col =
     (case angle_rad row of
        Inl e \<Rightarrow> Inl e
      | Inr a \<Rightarrow> Inr (fadd (py_float (center_y row)) (fmul (math_sin a) (py_float arrow_length))))"

text \<open>The \<^verbatim>\<open>try\<close> / \<^verbatim>\<open>except\<close> around the font lookup: any exception selects the default font.\<close>

definition label_font :: "'f world \<Rightarrow> 'f font" where
  "label_font w =
     (case ImageFont_truetype ''/System/Library/Fonts/Supplemental/Arial.ttf'' 10 w of
        Inr f \<Rightarrow> f
      | Inl e \<Rightarrow> ImageFont_load_default)"

text \<open>The body of the inner loop: everything drawn for the frame \<open>(row, col)\<close>.\<close>

definition draw_frame :: "'f pillow \<Rightarrow> 'f world \<Rightarrow> int \<Rightarrow> int \<Rightarrow> image \<Rightarrow> error + image" where
  "draw_frame L w row col sprite_sheet =
     (let x = col * FRAME_WIDTH;
          y = row * FRAME_HEIGHT;
          body_color = (100, 150, 200, 255);
          cx = py_float (center_x col);
          cy = py_float (center_y row)
      in case body_radius col of
           Inl e \<Rightarrow> Inl e
         | Inr r \<Rightarrow>
             let s1 = Draw_ellipse L (fsub cx r, fsub cy r, fadd cx r, fadd cy r)
                        body_color (Some (50, 100, 150, 255)) 2 sprite_sheet;
                 arrow_color = (255, 200, 0, 255)
             in case arrow_x row col of
                  Inl e \<Rightarrow> Inl e
                | Inr ax \<Rightarrow>
                    (case arrow_y row col of
                       Inl e \<Rightarrow> Inl e
                     | Inr ay \<Rightarrow>
                         let s2 = Draw_line L ((cx, cy), (ax, ay)) arrow_color 3 s1;
                             s3 = Draw_ellipse L
                                    (fsub ax (py_float 3), fsub ay (py_float 3),
                                     fadd ax (py_float 3), fadd ay (py_float 3))
                                    arrow_color None 1 s2;
                             fnt = label_font w;
                             frame_label = str_int col;
                             text_x = x + 5;
                             text_y = y + 5
                         in Inr (Draw_text L (text_x, text_y) frame_label
                                   (255, 255, 255, 200) fnt s3)))"

definition create_sprite_sheet :: "'f pillow \<Rightarrow> 'f world \<Rightarrow> error + image" where
  "create_sprite_sheet L w =
     for_each
       (\<lambda>(row, direction). for_each (\<lambda>col. draw_frame L w row col) (range_py COLUMNS))
       (enumerate_py DIRECTIONS)
       (Image_new ''RGBA'' (SPRITE_SHEET_WIDTH, SPRITE_SHEET_HEIGHT) (0, 0, 0, 0))"

text \<open>
  The two characters of the messages outside ASCII, as their UTF-8 bytes: the
  multiplication sign and the check mark.
\<close>

definition times_sign :: string where
  "times_sign = [CHR 0xC3, CHR 0x97]"

definition check_mark :: string where
  "check_mark = [CHR 0xE2, CHR 0x9C, CHR 0x93]"

definition output_path :: string where
  "output_path = ''public/assets/player/player-walk-spritesheet.png''"

definition main :: "'f pillow \<Rightarrow> 'f world \<Rightarrow> 'f outcome" where
  "main L w =
     (let w1 = print_line ''Generating player walking sprite sheet...'' w;
          w2 = print_line (''  Dimensions: '' @ str_int SPRITE_SHEET_WIDTH @ ''x''
                           @ str_int SPRITE_SHEET_HEIGHT @ ''px'') w1;
          w3 = print_line (''  Frame size: '' @ str_int FRAME_WIDTH @ ''x''
                           @ str_int FRAME_HEIGHT @ ''px'') w2;
          w4 = print_line (''  Layout: '' @ str_int COLUMNS @ '' frames '' @ times_sign @ '' ''
                           @ str_int ROWS @ '' directions'') w3
      in case create_sprite_sheet L w4 of
           Inl e \<Rightarrow> Uncaught e w4
         | Inr sprite_sheet \<Rightarrow>
             (case Image_save L sprite_sheet output_path w4 of
                Inl e \<Rightarrow> Uncaught e w4
              | Inr w5 \<Rightarrow>
                  let w6 = print_line (check_mark @ '' Sprite sheet saved to: '' @ output_path) w5;
                      w7 = print_line (''  File size: '' @ str_pair (im_size sprite_sheet)) w6
                  in case Image_open L output_path w7 of
                       Inl e \<Rightarrow> Uncaught e w7
                     | Inr (test_img_size, test_img_mode) \<Rightarrow>
                         Done (print_line
                                 (check_mark @ '' Verified: '' @ str_int (fst test_img_size)
                                  @ ''x'' @ str_int (snd test_img_size)
                                  @ ''px, mode='' @ test_img_mode) w7)))"

section \<open>Frames and sample instances\<close>

text \<open>The 96 by 96 region of the sheet that belongs to the frame \<open>(row, col)\<close>.\<close>

definition in_cell :: "int \<Rightarrow> int \<Rightarrow> int \<times> int \<Rightarrow> bool" where
  "in_cell row col p =
     (col * FRAME_WIDTH \<le> fst p \<and> fst p < (col + 1) * FRAME_WIDTH \<and>
      row * FRAME_HEIGHT \<le> snd p \<and> snd p < (row + 1) * FRAME_HEIGHT)"

text \<open>
  The rendered frame number fits its frame: drawn at offset \<open>(5, 5)\<close>, it reaches neither
  above or left of the frame nor beyond its 96 pixels.
\<close>

definition label_fits :: "'f pillow \<Rightarrow> 'f world \<Rightarrow> bool" where
  "label_fits L w =
     (\<forall>col \<in> set (range_py COLUMNS).
        case text_extent L (label_font w) (str_int col) of
          (l, t, r, b) \<Rightarrow> - 5 \<le> l \<and> - 5 \<le> t \<and> r \<le> 90 \<and> b \<le> 90)"

text \<open>
  The frame \<open>(row, col)\<close> before its label: the body ellipse of radius \<open>r\<close>, the arrow line to
  \<open>(ax, ay)\<close> and the tip, drawn in this order.
\<close>

definition frame_shapes ::
  "'f pillow \<Rightarrow> int \<Rightarrow> int \<Rightarrow> real \<Rightarrow> real \<Rightarrow> real \<Rightarrow> image \<Rightarrow> image" where
  "frame_shapes L row col r ax ay im =
     (let cx = py_float (center_x col);
          cy = py_float (center_y row);
          s1 = Draw_ellipse L (fsub cx r, fsub cy r, fadd cx r, fadd cy r)
                 (100, 150, 200, 255) (Some (50, 100, 150, 255)) 2 im;
          s2 = Draw_line L ((cx, cy), (ax, ay)) (255, 200, 0, 255) 3 s1
      in Draw_ellipse L
           (fsub ax (py_float 3), fsub ay (py_float 3), fadd ax (py_float 3), fadd ay (py_float 3))
           (255, 200, 0, 255) None 1 s2)"

text \<open>
  The pixels the frame number of the frame \<open>(row, col)\<close> may cover: the extent of the
  rendered string, moved to the anchor \<open>(x + 5, y + 5)\<close> of the label.
\<close>

definition in_label :: "'f pillow \<Rightarrow> 'f world \<Rightarrow> int \<Rightarrow> int \<Rightarrow> int \<times> int \<Rightarrow> bool" where
  "in_label L w row col p =
     in_box (text_extent L (label_font w) (str_int col))
       (fst p - (col * FRAME_WIDTH + 5), snd p - (row * FRAME_HEIGHT + 5))"

text \<open>
  A sample of Pillow, used where a theorem needs a concrete one: the ellipse inscribed in
  the box, a band around the segment, six by eleven pixels for each character of a string,
  and a file format with a five byte head (width, height, mode) before the pixels.
\<close>

definition ellipse_inside :: "int \<times> int \<times> int \<times> int \<Rightarrow> int \<times> int \<Rightarrow> bool" where
  "ellipse_inside box p =
     (case box of (x0, y0, x1, y1) \<Rightarrow>
        in_box box p \<and>
        (2 * fst p - x0 - x1)\<^sup>2 * (y1 - y0)\<^sup>2 + (2 * snd p - y0 - y1)\<^sup>2 * (x1 - x0)\<^sup>2
          \<le> (x1 - x0)\<^sup>2 * (y1 - y0)\<^sup>2)"

definition band :: "int \<times> int \<times> int \<times> int \<Rightarrow> int \<Rightarrow> int \<times> int \<Rightarrow> bool" where
  "band seg width p =
     (case seg of (x0, y0, x1, y1) \<Rightarrow>
        in_box (line_box seg width) p \<and>
        2 * \<bar>(x1 - x0) * (snd p - y0) - (y1 - y0) * (fst p - x0)\<bar>
          \<le> width * (\<bar>x1 - x0\<bar> + \<bar>y1 - y0\<bar>))"

definition sample_encode :: "image \<Rightarrow> bytes" where
  "sample_encode im =
     (case im_size im of (wd, ht) \<Rightarrow>
        [nat wd div 256, nat wd mod 256, nat ht div 256, nat ht mod 256,
         (if im_mode im = ''RGBA'' then 6 else 0)]
        @ concat (map (\<lambda>y. concat (map (\<lambda>x.
              case im_pixels im (int x, int y) of (r, g, b, a) \<Rightarrow> [nat r, nat g, nat b, nat a])
            [0..<nat wd])) [0..<nat ht]))"

definition sample_header :: "bytes \<Rightarrow> ((int \<times> int) \<times> string) option" where
  "sample_header bs =
     (case bs of
        w1 # w0 # h1 # h0 # m # rest \<Rightarrow>
          if m = 6 then Some ((int (w1 * 256 + w0), int (h1 * 256 + h0)), ''RGBA'') else None
      | _ \<Rightarrow> None)"

definition sample_pillow :: "unit pillow" where
  "sample_pillow =
     \<lparr>ellipse_scan = (\<lambda>box fill width p.
          ellipse_inside box p \<and>
          (fill \<or> (case box of (x0, y0, x1, y1) \<Rightarrow>
             \<not> ellipse_inside (x0 + width, y0 + width, x1 - width, y1 - width) p))),
      wide_line_scan = band,
      text_extent = (\<lambda>fnt s. (0, 0, 6 * int (length s) - 1, 10)),
      text_paste = (\<lambda>fnt s ink d old.
          if in_box (0, 0, 6 * int (length s) - 1, 10) d \<and> even (fst d + snd d) then ink else old),
      png_encode = sample_encode,
      png_header = sample_header\<rparr>"


definition sample_world :: "unit world" where
  "sample_world =
     \<lparr>cwd = [''repo''],
      dirs = {[''repo''], [''repo'', ''public''], [''repo'', ''public'', ''assets''],
              [''repo'', ''public'', ''assets'', ''player''], [''repo'', ''scripts'']},
      files = Map.empty,
      write_error = (\<lambda>p. None),
      read_error = (\<lambda>p. None),
      truetype = (\<lambda>name sz. Inl OSError),
      clock = 0,
      entropy = [],
      stdout = []\<rparr>"

section \<open>Bounds on pi\<close>

text \<open>
  Machin's formula and the alternating series of the arc tangent give \<open>pi\<close> to 18 digits,
  enough to place \<^verbatim>\<open>math.pi\<close> and \<^verbatim>\<open>math.radians(270)\<close> against it.
\<close>

lemma arctan_partial_sums:
  fixes x :: real
  assumes "0 \<le> x" "x \<le> 1"
  shows "(\<Sum>i<2 * n. (- 1) ^ i * (1 / real (i * 2 + 1) * x ^ (i * 2 + 1))) \<le> arctan x"
    and "arctan x \<le> (\<Sum>i<2 * n + 1. (- 1) ^ i * (1 / real (i * 2 + 1) * x ^ (i * 2 + 1)))"
proof -
  let ?a = "\<lambda>i. 1 / real (i * 2 + 1) * x ^ (i * 2 + 1)"
  have ax: "\<bar>x\<bar> \<le> 1" using assms by simp
  have z: "?a \<longlonglongrightarrow> 0" using ax by (rule zeroseq_arctan_series)
  have p: "0 \<le> ?a i" for i using assms by simp
  have m: "?a (Suc i) \<le> ?a i" for i
  proof -
    have "x ^ (Suc i * 2 + 1) = x ^ (i * 2 + 1) * x ^ 2" by (simp add: power_add [symmetric])
    also have "\<dots> \<le> x ^ (i * 2 + 1) * 1"
      using assms by (intro mult_left_mono) (auto simp: power_le_one)
    finally have le: "x ^ (Suc i * 2 + 1) \<le> x ^ (i * 2 + 1)" by simp
    have "1 / real (Suc i * 2 + 1) * x ^ (Suc i * 2 + 1) \<le> 1 / real (i * 2 + 1) * x ^ (Suc i * 2 + 1)"
      using assms by (intro mult_right_mono) (auto simp: field_simps)
    also have "\<dots> \<le> 1 / real (i * 2 + 1) * x ^ (i * 2 + 1)"
      using le by (intro mult_left_mono) auto
    finally show ?thesis .
  qed
  have s: "arctan x = (\<Sum>i. (- 1) ^ i * ?a i)" using ax by (rule arctan_series)
  show "(\<Sum>i<2 * n. (- 1) ^ i * ?a i) \<le> arctan x"
    unfolding s by (rule summable_Leibniz'(2) [OF z p m])
  show "arctan x \<le> (\<Sum>i<2 * n + 1. (- 1) ^ i * ?a i)"
    unfolding s by (rule summable_Leibniz'(4) [OF z p m])
qed

lemma pi_bounds: "3.141592653589793236 \<le> pi" "pi \<le> 3.141592653589793239"
proof -
  have l5: "(\<Sum>i<2 * 6. (- 1) ^ i * (1 / real (i * 2 + 1) * (1 / 5) ^ (i * 2 + 1))) \<le> arctan (1 / 5)"
    by (rule arctan_partial_sums) simp_all
  have u5: "arctan (1 / 5) \<le> (\<Sum>i<2 * 6 + 1. (- 1) ^ i * (1 / real (i * 2 + 1) * (1 / 5) ^ (i * 2 + 1)))"
    by (rule arctan_partial_sums) simp_all
  have l239: "(\<Sum>i<2 * 2. (- 1) ^ i * (1 / real (i * 2 + 1) * (1 / 239) ^ (i * 2 + 1))) \<le> arctan (1 / 239)"
    by (rule arctan_partial_sums) simp_all
  have u239: "arctan (1 / 239) \<le> (\<Sum>i<2 * 2 + 1. (- 1) ^ i * (1 / real (i * 2 + 1) * (1 / 239) ^ (i * 2 + 1)))"
    by (rule arctan_partial_sums) simp_all
  have pi4: "pi = 16 * arctan (1 / 5) - 4 * arctan (1 / 239)"
    using machin by simp
  show "3.141592653589793236 \<le> pi"
    unfolding pi4 using l5 u239 by (simp add: eval_nat_numeral)
  show "pi \<le> 3.141592653589793239"
    unfolding pi4 using u5 l239 by (simp add: eval_nat_numeral)
qed

section \<open>Rounding to binary64\<close>

subsection \<open>Rounding to the nearest integer, ties to even\<close>

lemma rhe_near:
  assumes "\<bar>r - of_int n\<bar> < 1 / 2"
  shows "round_half_even r = n"
proof (cases "of_int n \<le> r")
  case True
  with assms have "\<lfloor>r\<rfloor> = n" by (intro floor_unique) (auto simp: abs_less_iff)
  with assms True show ?thesis by (simp add: round_half_even_def Let_def abs_less_iff)
next
  case False
  with assms have f: "\<lfloor>r\<rfloor> = n - 1" by (intro floor_unique) (auto simp: abs_less_iff)
  from assms False have "1 / 2 < r - of_int (n - 1)" by (auto simp: abs_less_iff)
  with f show ?thesis by (simp add: round_half_even_def Let_def)
qed

lemma rhe_of_int: "round_half_even (of_int n) = n"
  by (rule rhe_near) simp

lemma rhe_error: "\<bar>of_int (round_half_even r) - r\<bar> \<le> 1 / 2"
proof -
  have "of_int \<lfloor>r\<rfloor> \<le> r" "r < of_int \<lfloor>r\<rfloor> + 1" by linarith+
  then show ?thesis
    by (auto simp: round_half_even_def Let_def abs_le_iff)
qed

lemma rhe_mono:
  assumes "r \<le> s"
  shows "round_half_even r \<le> round_half_even s"
proof (rule ccontr)
  assume "\<not> ?thesis"
  then have lt: "round_half_even s + 1 \<le> round_half_even r" by simp
  then have "(of_int (round_half_even s) :: real) + 1 \<le> of_int (round_half_even r)"
    by (metis of_int_1 of_int_add of_int_le_iff)
  moreover have "of_int (round_half_even r) \<le> r + 1 / 2" "s - 1 / 2 \<le> of_int (round_half_even s)"
    using rhe_error [of r] rhe_error [of s] by linarith+
  ultimately have "r = s" using assms by linarith
  with lt show False by simp
qed

lemma rhe_minus: "round_half_even (- r) = - round_half_even r"
proof (cases "r = of_int \<lfloor>r\<rfloor>")
  case True
  then obtain n where "r = of_int n" ..
  then show ?thesis using rhe_of_int [of n] rhe_of_int [of "- n"] by simp
next
  case False
  then have fl: "\<lfloor>- r\<rfloor> = - \<lfloor>r\<rfloor> - 1"
    by (intro floor_unique) (linarith+)
  show ?thesis
    using False by (auto simp: round_half_even_def Let_def fl)
qed

subsection \<open>Binades, exact values and nearest values\<close>

lemma ulp_pos: "0 < ulp x"
  by (simp add: ulp_def)

lemma powr_powi: "(2::real) powr (of_int k) = 2 powi k"
  by (simp add: powr_real_of_int')

lemma floor_log2:
  assumes "x \<noteq> 0"
  shows "2 powi \<lfloor>log 2 \<bar>x\<bar>\<rfloor> \<le> \<bar>x\<bar>" "\<bar>x\<bar> < 2 powi (\<lfloor>log 2 \<bar>x\<bar>\<rfloor> + 1)"
proof -
  have "0 < \<bar>x\<bar>" using assms by simp
  then have "2 powr (of_int \<lfloor>log 2 \<bar>x\<bar>\<rfloor>) \<le> \<bar>x\<bar> \<and> \<bar>x\<bar> < 2 powr (of_int \<lfloor>log 2 \<bar>x\<bar>\<rfloor> + 1)"
    using floor_log_eq_powr_iff [of "\<bar>x\<bar>" 2 "\<lfloor>log 2 \<bar>x\<bar>\<rfloor>"] by simp
  moreover have "(2::real) powr (of_int \<lfloor>log 2 \<bar>x\<bar>\<rfloor> + 1) = 2 powi (\<lfloor>log 2 \<bar>x\<bar>\<rfloor> + 1)"
    using powr_powi [of "\<lfloor>log 2 \<bar>x\<bar>\<rfloor> + 1"] by simp
  ultimately show "2 powi \<lfloor>log 2 \<bar>x\<bar>\<rfloor> \<le> \<bar>x\<bar>" "\<bar>x\<bar> < 2 powi (\<lfloor>log 2 \<bar>x\<bar>\<rfloor> + 1)"
    by (simp_all add: powr_powi)
qed

lemma floor_log2_eq:
  assumes "2 powi e \<le> \<bar>x\<bar>" "\<bar>x\<bar> < 2 powi (e + 1)"
  shows "\<lfloor>log 2 \<bar>x\<bar>\<rfloor> = e"
proof -
  have "0 < (2::real) powi e" by simp
  with assms have "0 < \<bar>x\<bar>" by linarith
  moreover have "(2::real) powr (of_int e + 1) = 2 powi (e + 1)"
    using powr_powi [of "e + 1"] by simp
  ultimately show ?thesis
    using floor_log_eq_powr_iff [of "\<bar>x\<bar>" 2 e] assms by (simp add: powr_powi)
qed

lemma expo_eq:
  assumes "- 1022 \<le> e" "2 powi e \<le> \<bar>x\<bar>" "\<bar>x\<bar> < 2 powi (e + 1)"
  shows "expo x = e"
  using floor_log2_eq [OF assms(2,3)] assms(1) by (simp add: expo_def)

lemma expo_upper:
  assumes "x \<noteq> 0"
  shows "\<bar>x\<bar> < 2 powi (expo x + 1)"
proof -
  have "\<lfloor>log 2 \<bar>x\<bar>\<rfloor> + 1 \<le> expo x + 1" by (simp add: expo_def)
  then have "(2::real) powi (\<lfloor>log 2 \<bar>x\<bar>\<rfloor> + 1) \<le> 2 powi (expo x + 1)"
    by (intro power_int_increasing) auto
  with floor_log2(2) [OF assms] show ?thesis by linarith
qed

lemma expo_lower:
  assumes "x \<noteq> 0" "- 1022 < expo x"
  shows "2 powi (expo x) \<le> \<bar>x\<bar>"
proof -
  from assms(2) have "expo x = \<lfloor>log 2 \<bar>x\<bar>\<rfloor>" by (auto simp: expo_def max_def split: if_splits)
  with floor_log2(1) [OF assms(1)] show ?thesis by simp
qed

lemma expo_minus: "expo (- x) = expo x"
  by (simp add: expo_def)

lemma expo_mono:
  assumes "x \<noteq> 0" "\<bar>x\<bar> \<le> \<bar>y\<bar>"
  shows "expo x \<le> expo y"
proof -
  have "0 < \<bar>x\<bar>" using assms by simp
  then have "log 2 \<bar>x\<bar> \<le> log 2 \<bar>y\<bar>" using assms by simp
  then have "\<lfloor>log 2 \<bar>x\<bar>\<rfloor> \<le> \<lfloor>log 2 \<bar>y\<bar>\<rfloor>" by (rule floor_mono)
  then show ?thesis by (simp add: expo_def)
qed

lemma ulp_minus: "ulp (- x) = ulp x"
  by (simp add: ulp_def expo_minus)

lemma rnd_minus: "rnd (- x) = - rnd x"
  by (simp add: rnd_def ulp_minus rhe_minus)

lemma rnd_0: "rnd 0 = 0"
  by (simp add: rnd_def)

lemma rnd_near:
  assumes e: "- 1022 \<le> e" "2 powi e \<le> \<bar>x\<bar>" "\<bar>x\<bar> < 2 powi (e + 1)"
    and near: "\<bar>x - of_int m * 2 powi (e - 52)\<bar> < 2 powi (e - 53)"
  shows "rnd x = of_int m * 2 powi (e - 52)"
proof -
  have "0 < (2::real) powi e" by simp
  with e(2) have "0 < \<bar>x\<bar>" by linarith
  then have x0: "x \<noteq> 0" by simp
  have u: "ulp x = 2 powi (e - 52)" by (simp add: ulp_def expo_eq [OF e])
  have half: "(2::real) powi (e - 53) = 2 powi (e - 52) / 2"
    using power_int_add_1 [of "2::real" "e - 53"] by simp
  have "x / ulp x - of_int m = (x - of_int m * ulp x) / ulp x"
    using ulp_pos [of x] by (simp add: field_simps)
  then have "\<bar>x / ulp x - of_int m\<bar> = \<bar>x - of_int m * ulp x\<bar> / ulp x"
    using ulp_pos [of x] by (simp only: abs_divide abs_of_pos)
  also have "\<dots> < 1 / 2"
    using near ulp_pos [of x] unfolding u half by (simp add: field_simps)
  finally have "round_half_even (x / ulp x) = m" by (rule rhe_near)
  with x0 u show ?thesis by (simp add: rnd_def)
qed

lemma rnd_dyadic:
  assumes k: "\<bar>k\<bar> < 2 ^ 53" and j: "- 1074 \<le> j"
  shows "rnd (of_int k * 2 powi j) = of_int k * 2 powi j"
proof (cases "k = 0")
  case True
  then show ?thesis by (simp add: rnd_0)
next
  case False
  define x :: real where "x = of_int k * 2 powi j"
  have x0: "x \<noteq> 0" using False by (simp add: x_def)
  have "\<bar>x\<bar> = of_int \<bar>k\<bar> * 2 powi j" by (simp add: x_def abs_mult)
  also have "\<dots> < 2 ^ 53 * 2 powi j"
  proof -
    have "(of_int \<bar>k\<bar> :: real) < of_int (2 ^ 53)" using k by (simp only: of_int_less_iff)
    then show ?thesis by simp
  qed
  also have "\<dots> = 2 powi (j + 53)"
    by (simp add: power_int_add)
  finally have up: "\<bar>x\<bar> < 2 powi (j + 53)" .
  have "\<lfloor>log 2 \<bar>x\<bar>\<rfloor> \<le> j + 52"
  proof (rule ccontr)
    assume "\<not> ?thesis"
    then have "j + 53 \<le> \<lfloor>log 2 \<bar>x\<bar>\<rfloor>" by simp
    then have "(2::real) powi (j + 53) \<le> 2 powi \<lfloor>log 2 \<bar>x\<bar>\<rfloor>"
      by (intro power_int_increasing) auto
    with floor_log2(1) [OF x0] up show False by linarith
  qed
  with j have le: "expo x - 52 \<le> j" by (simp add: expo_def)
  define d where "d = nat (j - (expo x - 52))"
  define u where "u = ulp x"
  have u0: "0 < u" by (simp add: u_def ulp_pos)
  have pw: "(2::real) powi j = 2 ^ d * u"
  proof -
    have "j = int d + (expo x - 52)" using le by (simp add: d_def)
    then have "(2::real) powi j = 2 powi (int d) * 2 powi (expo x - 52)"
      by (metis power_int_add zero_neq_numeral)
    then show ?thesis by (simp add: ulp_def u_def)
  qed
  have xeq: "x = of_int (k * 2 ^ d) * u"
    by (simp add: x_def pw)
  then have "x / u = of_int (k * 2 ^ d)"
    using u0 by (simp add: field_simps)
  then have "round_half_even (x / u) = k * 2 ^ d"
    by (simp only: rhe_of_int)
  then have "rnd x = of_int (k * 2 ^ d) * u"
    using x0 by (simp add: rnd_def u_def)
  with xeq have "rnd x = x" by simp
  then show ?thesis unfolding x_def .
qed

lemma rnd_of_int:
  assumes "\<bar>i\<bar> < 2 ^ 53"
  shows "rnd (of_int i) = of_int i"
  using rnd_dyadic [OF assms, of 0] by simp

subsection \<open>Rounding is monotone\<close>

lemma ulp_scale: "2 ^ 53 * ulp x = 2 powi (expo x + 1)" "2 ^ 52 * ulp x = 2 powi (expo x)"
proof -
  have "(2::real) powi (53 + (expo x - 52)) = 2 powi 53 * 2 powi (expo x - 52)"
    by (rule power_int_add) simp
  moreover have "53 + (expo x - 52) = expo x + 1" by simp
  ultimately have "(2::real) powi (expo x + 1) = 2 powi 53 * 2 powi (expo x - 52)" by simp
  then show "2 ^ 53 * ulp x = 2 powi (expo x + 1)" by (simp add: ulp_def)
  have "(2::real) powi (52 + (expo x - 52)) = 2 powi 52 * 2 powi (expo x - 52)"
    by (rule power_int_add) simp
  then show "2 ^ 52 * ulp x = 2 powi (expo x)" by (simp add: ulp_def)
qed

lemma rnd_nonneg:
  assumes "0 \<le> x"
  shows "0 \<le> rnd x"
proof (cases "x = 0")
  case True
  then show ?thesis by (simp add: rnd_0)
next
  case False
  have "0 \<le> x / ulp x" using assms ulp_pos [of x] by simp
  then have "round_half_even 0 \<le> round_half_even (x / ulp x)" by (rule rhe_mono)
  then have "0 \<le> round_half_even (x / ulp x)" using rhe_of_int [of 0] by simp
  then show ?thesis using False ulp_pos [of x] by (simp add: rnd_def)
qed

lemma rnd_upper:
  assumes "0 < x"
  shows "rnd x \<le> 2 powi (expo x + 1)"
proof -
  have "x < 2 ^ 53 * ulp x"
    using expo_upper [of x] assms unfolding ulp_scale by simp
  then have "x / ulp x \<le> of_int (2 ^ 53)"
    using ulp_pos [of x] by (simp add: field_simps)
  then have "round_half_even (x / ulp x) \<le> round_half_even (of_int (2 ^ 53))" by (rule rhe_mono)
  then have "round_half_even (x / ulp x) \<le> 2 ^ 53" by (simp only: rhe_of_int)
  then have "(of_int (round_half_even (x / ulp x)) :: real) \<le> of_int (2 ^ 53)"
    by (simp only: of_int_le_iff)
  then have "of_int (round_half_even (x / ulp x)) * ulp x \<le> 2 ^ 53 * ulp x"
    using ulp_pos [of x] by simp
  then show ?thesis using assms unfolding ulp_scale by (simp add: rnd_def)
qed

lemma rnd_lower:
  assumes "0 < x" "- 1022 < expo x"
  shows "2 powi (expo x) \<le> rnd x"
proof -
  have "2 ^ 52 * ulp x \<le> x"
    using expo_lower [of x] assms unfolding ulp_scale by simp
  then have "of_int (2 ^ 52) \<le> x / ulp x"
    using ulp_pos [of x] by (simp add: field_simps)
  then have "round_half_even (of_int (2 ^ 52)) \<le> round_half_even (x / ulp x)" by (rule rhe_mono)
  then have "2 ^ 52 \<le> round_half_even (x / ulp x)" by (simp only: rhe_of_int)
  then have "(of_int (2 ^ 52) :: real) \<le> of_int (round_half_even (x / ulp x))"
    by (simp only: of_int_le_iff)
  then have "2 ^ 52 * ulp x \<le> of_int (round_half_even (x / ulp x)) * ulp x"
    using ulp_pos [of x] by simp
  then show ?thesis using assms unfolding ulp_scale by (simp add: rnd_def)
qed

lemma rnd_mono_pos:
  assumes "0 < x" "x \<le> y"
  shows "rnd x \<le> rnd y"
proof (cases "expo x = expo y")
  case True
  then have u: "ulp y = ulp x" by (simp add: ulp_def)
  have "x / ulp x \<le> y / ulp x" using assms ulp_pos [of x] by (simp add: divide_right_mono)
  then have "round_half_even (x / ulp x) \<le> round_half_even (y / ulp x)" by (rule rhe_mono)
  then have "(of_int (round_half_even (x / ulp x)) :: real) \<le> of_int (round_half_even (y / ulp x))"
    by (simp only: of_int_le_iff)
  then have "of_int (round_half_even (x / ulp x)) * ulp x \<le> of_int (round_half_even (y / ulp x)) * ulp x"
    using ulp_pos [of x] by simp
  then show ?thesis using assms by (simp add: rnd_def u)
next
  case False
  have "expo x \<le> expo y" using assms by (intro expo_mono) auto
  with False have lt: "expo x + 1 \<le> expo y" by simp
  have "- 1022 \<le> expo x" by (simp add: expo_def)
  with lt have "- 1022 < expo y" by simp
  then have "2 powi (expo y) \<le> rnd y" using assms by (intro rnd_lower) auto
  moreover have "(2::real) powi (expo x + 1) \<le> 2 powi (expo y)"
    using lt by (intro power_int_increasing) auto
  ultimately show ?thesis using rnd_upper [OF assms(1)] by linarith
qed

lemma rnd_mono:
  assumes "x \<le> y"
  shows "rnd x \<le> rnd y"
proof -
  consider "0 < x" | "x \<le> 0" "0 \<le> y" | "y < 0" by linarith
  then show ?thesis
  proof cases
    case 1
    then show ?thesis using assms by (rule rnd_mono_pos)
  next
    case 2
    have "0 \<le> rnd (- x)" using 2 by (intro rnd_nonneg) simp
    then have "rnd x \<le> 0" by (simp add: rnd_minus)
    moreover have "0 \<le> rnd y" using 2 by (intro rnd_nonneg)
    ultimately show ?thesis by linarith
  next
    case 3
    have "rnd (- y) \<le> rnd (- x)" using 3 assms by (intro rnd_mono_pos) auto
    then show ?thesis by (simp add: rnd_minus)
  qed
qed

lemma rnd_between:
  assumes "of_int a \<le> x" "x \<le> of_int b" "\<bar>a\<bar> < 2 ^ 53" "\<bar>b\<bar> < 2 ^ 53"
  shows "of_int a \<le> rnd x \<and> rnd x \<le> of_int b"
  using rnd_mono [OF assms(1)] rnd_mono [OF assms(2)] rnd_of_int [OF assms(3)] rnd_of_int [OF assms(4)]
  by simp

subsection \<open>Absorption, and the constants of the math module\<close>

lemma rnd_absorb:
  assumes c: "2 ^ n < c" "c < 2 ^ 53" and t: "\<bar>t\<bar> < 2 powi (int n - 53)" and n: "n \<le> 53"
  shows "rnd (of_int c + t) = of_int c"
proof -
  define x where "x = of_int c + t"
  have "(2::real) powi (int n - 53) \<le> 2 powi 0"
    using n by (intro power_int_increasing) auto
  then have t1: "\<bar>t\<bar> < 1" using t by simp
  have c1: "(2::real) ^ n + 1 \<le> of_int c"
  proof -
    have "2 ^ n + 1 \<le> c" using c(1) by simp
    then have "(of_int (2 ^ n + 1) :: real) \<le> of_int c" by (simp only: of_int_le_iff)
    then show ?thesis by simp
  qed
  have c2: "(of_int c :: real) + 1 \<le> 2 ^ 53"
  proof -
    have "c + 1 \<le> 2 ^ 53" using c(2) by simp
    then have "(of_int (c + 1) :: real) \<le> of_int (2 ^ 53)" by (simp only: of_int_le_iff)
    then show ?thesis by simp
  qed
  have xl: "2 ^ n \<le> x" and xu: "x < 2 ^ 53" using t1 c1 c2 by (auto simp: x_def abs_less_iff)
  have xpos: "0 < x" using xl by (smt (verit) zero_less_power)
  have x0: "x \<noteq> 0" using xpos by simp
  have ax: "\<bar>x\<bar> = x" using xpos by simp
  define e where "e = expo x"
  have e_lo: "int n \<le> e"
  proof (rule ccontr)
    assume "\<not> ?thesis"
    then have "e + 1 \<le> int n" by simp
    then have "(2::real) powi (e + 1) \<le> 2 powi (int n)"
      by (intro power_int_increasing) auto
    with expo_upper [OF x0] xl show False by (simp add: ax e_def)
  qed
  have e_hi: "e \<le> 52"
  proof (rule ccontr)
    assume "\<not> ?thesis"
    then have e53: "53 \<le> e" by simp
    then have "- 1022 < e" by simp
    then have "2 powi e \<le> x" using expo_lower [OF x0] by (simp add: ax e_def)
    moreover have "(2::real) powi 53 \<le> 2 powi e" using e53 by (intro power_int_increasing) auto
    ultimately show False using xu by simp
  qed
  have e_min: "- 1022 < e" using e_lo by simp
  define d where "d = nat (52 - e)"
  have de: "e - 52 = - int d" using e_hi by (simp add: d_def)
  have pw: "(2::real) ^ d * 2 powi (e - 52) = 1"
    unfolding de by (simp add: power_int_minus)
  have rep: "of_int (c * 2 ^ d) * 2 powi (e - 52) = (of_int c :: real)"
    using pw by (simp add: mult.assoc)
  have "(2::real) powi (int n - 53) \<le> 2 powi (e - 53)"
    using e_lo by (intro power_int_increasing) auto
  with t have near: "\<bar>x - of_int (c * 2 ^ d) * 2 powi (e - 52)\<bar> < 2 powi (e - 53)"
    unfolding rep by (simp add: x_def)
  have "rnd x = of_int (c * 2 ^ d) * 2 powi (e - 52)"
  proof (rule rnd_near [OF _ _ _ near])
    show "- 1022 \<le> e" using e_min by simp
    show "2 powi e \<le> \<bar>x\<bar>" using expo_lower [OF x0] e_min by (simp add: e_def)
    show "\<bar>x\<bar> < 2 powi (e + 1)" using expo_upper [OF x0] by (simp add: e_def)
  qed
  then show ?thesis unfolding rep x_def .
qed

lemma py_float_eq: "\<bar>i\<bar> < 2 ^ 53 \<Longrightarrow> py_float i = of_int i"
  by (simp add: py_float_def rnd_of_int)

lemma rnd_numeral [simp]:
  "rnd 1 = 1" "rnd 2 = 2" "rnd 3 = 3" "rnd 15 = 15" "rnd 25 = 25"
  using rnd_of_int [of 1] rnd_of_int [of 2] rnd_of_int [of 3] rnd_of_int [of 15] rnd_of_int [of 25]
  by simp_all

lemma degToRad_eq: "degToRad = 5030569068109113 / 2 ^ 58"
proof -
  have "rnd (math_pi / 180) = of_int 5030569068109113 * 2 powi (- 6 - 52)"
    by (rule rnd_near) (simp_all add: math_pi_def)
  then show ?thesis by (simp add: degToRad_def)
qed

lemma radians_270: "math_radians 270 = 2652839157010665 / 2 ^ 49"
proof -
  have "rnd (270 * (5030569068109113 / 2 ^ 58)) = of_int 5305678314021330 * 2 powi (2 - 52)"
    by (rule rnd_near) simp_all
  then show ?thesis by (simp add: math_radians_def fmul_def degToRad_eq)
qed

subsection \<open>Sine and cosine at the arguments the scripts use\<close>

lemma rnd_pow2 [simp]: "rnd (1 / 2 ^ 52) = 1 / 2 ^ 52" "rnd (- (1 / 2 ^ 52)) = - (1 / 2 ^ 52)"
  using rnd_dyadic [of 1 "- 52"] rnd_dyadic [of "- 1" "- 52"] by simp_all

lemma rnd_abs_le:
  assumes "\<bar>x\<bar> \<le> of_int k * 2 powi j" "\<bar>k\<bar> < 2 ^ 53" "- 1074 \<le> j"
  shows "\<bar>rnd x\<bar> \<le> of_int k * 2 powi j"
proof -
  have "rnd x \<le> rnd (of_int k * 2 powi j)" using assms(1) by (intro rnd_mono) linarith
  moreover have "rnd (- (of_int k * 2 powi j)) \<le> rnd x" using assms(1) by (intro rnd_mono) linarith
  ultimately show ?thesis
    using rnd_dyadic [OF assms(2,3)] by (simp add: rnd_minus abs_le_iff)
qed

lemma sin_math_pi: "\<bar>sin math_pi\<bar> \<le> 1 / 2 ^ 52"
proof -
  have "sin math_pi = sin (pi - math_pi)" by simp
  then have "\<bar>sin math_pi\<bar> \<le> \<bar>pi - math_pi\<bar>" using abs_sin_x_le_abs_x [of "pi - math_pi"] by simp
  also have "\<dots> \<le> 1 / 2 ^ 52"
    using pi_bounds by (simp add: math_pi_def abs_le_iff)
  finally show ?thesis .
qed

lemma math_sin_pi: "\<bar>math_sin math_pi\<bar> \<le> 1 / 2 ^ 52"
  using rnd_abs_le [of "sin math_pi" 1 "- 52"] sin_math_pi by (simp add: math_sin_def)

lemma r270_near:
  "\<bar>3 / 2 * pi - math_radians 270\<bar> \<le> 1 / 2 ^ 52"
  using pi_bounds by (simp add: radians_270 abs_le_iff)

lemma cos_r270: "\<bar>cos (math_radians 270)\<bar> \<le> 1 / 2 ^ 52"
proof -
  define d :: real where "d = 3 / 2 * pi - math_radians 270"
  have r: "math_radians 270 = 3 / 2 * pi - d" by (simp add: d_def)
  have "cos (3 / 2 * pi - d) = - sin d" by (simp only: cos_diff cos_3over2_pi sin_3over2_pi)
  then have "\<bar>cos (math_radians 270)\<bar> \<le> \<bar>d\<bar>"
    unfolding r using abs_sin_x_le_abs_x [of d] by simp
  also have "\<dots> \<le> 1 / 2 ^ 52"
    using r270_near by (simp add: d_def)
  finally show ?thesis .
qed

lemma sin_r270: "sin (math_radians 270) \<le> - 1 + 1 / 2 ^ 100"
proof -
  define d :: real where "d = 3 / 2 * pi - math_radians 270"
  have dd: "\<bar>d\<bar> \<le> 1 / 2 ^ 52" using r270_near by (simp add: d_def)
  have r: "math_radians 270 = 3 / 2 * pi - d" by (simp add: d_def)
  have "sin (3 / 2 * pi - d) = - cos d" by (simp only: sin_diff cos_3over2_pi sin_3over2_pi)
  also have "\<dots> = - 1 + 2 * sin (d / 2) ^ 2" using cos_double_sin [of "d / 2"] by simp
  also have "\<dots> \<le> - 1 + 2 * (1 / 2 ^ 53) ^ 2"
  proof -
    have "\<bar>sin (d / 2)\<bar> \<le> \<bar>d / 2\<bar>" by (rule abs_sin_x_le_abs_x)
    also have "\<dots> \<le> 1 / 2 ^ 53" using dd by simp
    finally have "\<bar>sin (d / 2)\<bar> ^ 2 \<le> (1 / 2 ^ 53) ^ 2" by (intro power_mono) auto
    then show ?thesis by simp
  qed
  also have "\<dots> \<le> - 1 + 1 / 2 ^ 100" by (simp add: power2_eq_square)
  finally show ?thesis unfolding r .
qed

lemma math_sin_r270: "math_sin (math_radians 270) = - 1"
proof -
  let ?s = "sin (math_radians 270)"
  have up: "rnd (- 1 + 1 / 2 ^ 100) = of_int (- (2 ^ 53)) * 2 powi (- 1 - 52)"
    by (rule rnd_near) simp_all
  have "rnd ?s \<le> rnd (- 1 + 1 / 2 ^ 100)" using sin_r270 by (rule rnd_mono)
  then have "rnd ?s \<le> - 1" unfolding up by simp
  moreover have "rnd (- 1) \<le> rnd ?s" by (intro rnd_mono) simp
  then have "- 1 \<le> rnd ?s" by (simp add: rnd_minus)
  ultimately show ?thesis by (simp add: math_sin_def)
qed

lemma math_cos_r270: "\<bar>math_cos (math_radians 270)\<bar> \<le> 1 / 2 ^ 52"
  using rnd_abs_le [of "cos (math_radians 270)" 1 "- 52"] cos_r270 by (simp add: math_cos_def)

section \<open>The numbers computed for a frame\<close>

lemma rnd_half: "rnd (1 / 2) = 1 / 2"
  using rnd_dyadic [of 1 "- 1"] by simp

lemma rnd_math_pi: "rnd math_pi = math_pi" "rnd (math_pi / 2) = math_pi / 2"
  using rnd_dyadic [of 884279719003555 "- 48"] rnd_dyadic [of 884279719003555 "- 49"]
  by (simp_all add: math_pi_def)

lemma animation_offset_0: "animation_offset 0 = Inr 0"
  by (simp add: animation_offset_def truediv_def COLUMNS_def fmul_def rnd_0 math_sin_def)

lemma animation_offset_3: "\<exists>t. animation_offset 3 = Inr t \<and> \<bar>t\<bar> \<le> 3 / 2 ^ 52"
proof -
  have q: "truediv 3 COLUMNS = Inr (1 / 2)"
    by (simp add: truediv_def COLUMNS_def rnd_half)
  have arg: "fmul (fmul (1 / 2) math_pi) (py_float 2) = math_pi"
    by (simp add: fmul_def py_float_def rnd_math_pi)
  have "\<bar>math_sin math_pi * 3\<bar> \<le> of_int 3 * 2 powi (- 52)"
    using math_sin_pi by (simp add: abs_mult)
  then have "\<bar>rnd (math_sin math_pi * 3)\<bar> \<le> of_int 3 * 2 powi (- 52)"
    by (rule rnd_abs_le) simp_all
  then have "\<bar>fmul (math_sin math_pi) (py_float 3)\<bar> \<le> 3 / 2 ^ 52"
    by (simp add: fmul_def py_float_def)
  then show ?thesis by (simp add: animation_offset_def q arg)
qed

lemma body_radius_0: "body_radius 0 = Inr 25"
  by (simp add: body_radius_def animation_offset_0 fadd_def py_float_def)

lemma body_radius_3: "body_radius 3 = Inr 25"
proof -
  obtain t where t: "animation_offset 3 = Inr t" "\<bar>t\<bar> \<le> 3 / 2 ^ 52"
    using animation_offset_3 by blast
  have "rnd (of_int 25 + t) = of_int 25"
    by (rule rnd_absorb [where n = 4]) (use t(2) in simp_all)
  then show ?thesis by (simp add: body_radius_def t(1) fadd_def py_float_def)
qed

lemma angle_rad_2: "angle_rad 2 = Inr 0"
  by (simp add: angle_rad_def getitem_def angle_map_def math_radians_def fmul_def py_float_def rnd_0)

lemma angle_rad_4: "angle_rad 4 = Inr (math_radians 270)"
  using rnd_of_int [of 270] by (simp add: angle_rad_def getitem_def angle_map_def py_float_def)

lemma center_bounds:
  assumes "0 \<le> c"
  shows "48 \<le> center_x c" "48 \<le> center_y c"
  using assms by (simp_all add: center_x_def center_y_def FRAME_WIDTH_def FRAME_HEIGHT_def)

lemma east_end:
  assumes "0 \<le> col" "col < 6"
  shows "arrow_x 2 col = Inr (of_int (center_x col + 15))" "arrow_y 2 col = Inr (of_int (center_y 2))"
proof -
  have b: "\<bar>center_x col\<bar> < 2 ^ 53" "\<bar>center_x col + 15\<bar> < 2 ^ 53"
    using assms by (simp_all add: center_x_def FRAME_WIDTH_def)
  show "arrow_x 2 col = Inr (of_int (center_x col + 15))"
    using rnd_of_int [OF b(1)] rnd_of_int [OF b(2)]
    by (simp add: arrow_x_def angle_rad_2 math_cos_def fmul_def fadd_def py_float_def arrow_length_def)
  show "arrow_y 2 col = Inr (of_int (center_y 2))"
    using rnd_of_int [of "center_y 2"]
    by (simp add: arrow_y_def angle_rad_2 math_sin_def fmul_def fadd_def py_float_def arrow_length_def
        rnd_0 center_y_def FRAME_HEIGHT_def)
qed

lemma north_end:
  assumes "0 \<le> col" "col < 6"
  shows "arrow_x 4 col = Inr (of_int (center_x col))" "arrow_y 4 col = Inr (of_int (center_y 4 - 15))"
proof -
  have b: "\<bar>center_x col\<bar> < 2 ^ 53"
    using assms by (simp_all add: center_x_def FRAME_WIDTH_def)
  have "\<bar>math_cos (math_radians 270) * 15\<bar> \<le> of_int 15 * 2 powi (- 52)"
    using math_cos_r270 by (simp add: abs_mult)
  then have t: "\<bar>rnd (math_cos (math_radians 270) * 15)\<bar> \<le> of_int 15 * 2 powi (- 52)"
    by (rule rnd_abs_le) simp_all
  have "rnd (of_int (center_x col) + rnd (math_cos (math_radians 270) * 15)) = of_int (center_x col)"
  proof (rule rnd_absorb [where n = 5])
    show "2 ^ 5 < center_x col" using center_bounds(1) [OF assms(1)] by simp
    show "center_x col < 2 ^ 53" using b by simp
    show "\<bar>rnd (math_cos (math_radians 270) * 15)\<bar> < 2 powi (int 5 - 53)" using t by simp
  qed simp
  then show "arrow_x 4 col = Inr (of_int (center_x col))"
    using rnd_of_int [OF b]
    by (simp add: arrow_x_def angle_rad_4 fmul_def fadd_def py_float_def arrow_length_def)
  show "arrow_y 4 col = Inr (of_int (center_y 4 - 15))"
    using rnd_of_int [of "center_y 4"] rnd_of_int [of "center_y 4 - 15"] rnd_of_int [of "- 15"]
    by (simp add: arrow_y_def angle_rad_4 math_sin_r270 fmul_def fadd_def py_float_def arrow_length_def
        center_y_def FRAME_HEIGHT_def)
qed

section \<open>The sample scan converter meets the contract\<close>

lemma sample_pillow_ok: "pillow_ok sample_pillow"
  unfolding pillow_ok_def
proof (intro conjI allI impI)
  fix box fill width p
  assume "ellipse_scan sample_pillow box fill width p"
  then show "in_box box p"
    by (auto simp: sample_pillow_def ellipse_inside_def split: prod.splits)
next
  fix seg width p
  assume "wide_line_scan sample_pillow seg width p"
  then show "in_box (line_box seg width) p"
    by (auto simp: sample_pillow_def band_def split: prod.splits)
next
  fix fnt :: "unit font" and s ink d old
  assume "\<not> in_box (text_extent sample_pillow fnt s) d"
  then show "text_paste sample_pillow fnt s ink d old = old"
    by (simp add: sample_pillow_def)
next
  fix x0 y0 x1 y1 :: int
  assume a: "x0 + 2 \<le> x1 \<and> y0 + 2 \<le> y1"
  define u where "u = 2 * ((x0 + x1) div 2) - x0 - x1"
  define v where "v = 2 * ((y0 + y1) div 2) - y0 - y1"
  define A where "A = (x1 - x0)\<^sup>2"
  define B where "B = (y1 - y0)\<^sup>2"
  have u: "u\<^sup>2 \<le> 1" 
  proof -
    have "u = 0 \<or> u = - 1" unfolding u_def by presburger
    then show ?thesis by auto
  qed
  have v: "v\<^sup>2 \<le> 1"
  proof -
    have "v = 0 \<or> v = - 1" unfolding v_def by presburger
    then show ?thesis by auto
  qed
  have A: "4 \<le> A"
  proof -
    have "2\<^sup>2 \<le> (x1 - x0)\<^sup>2" using a by (intro power_mono) auto
    then show ?thesis by (simp add: A_def)
  qed
  have B: "4 \<le> B"
  proof -
    have "2\<^sup>2 \<le> (y1 - y0)\<^sup>2" using a by (intro power_mono) auto
    then show ?thesis by (simp add: B_def)
  qed
  have "u\<^sup>2 * B \<le> 1 * B" using u B by (intro mult_right_mono) auto
  moreover have "v\<^sup>2 * A \<le> 1 * A" using v A by (intro mult_right_mono) auto
  moreover have "A + B \<le> A * B"
  proof -
    have "0 \<le> (A - 1) * (B - 1) - 1" using A B
      by (smt (verit) mult_le_cancel_left1 mult_nonneg_nonneg)
    then show ?thesis by (simp add: algebra_simps)
  qed
  ultimately have "u\<^sup>2 * B + v\<^sup>2 * A \<le> A * B" by linarith
  moreover have "in_box (x0, y0, x1, y1) ((x0 + x1) div 2, (y0 + y1) div 2)"
    using a by (simp add: in_box_def) presburger
  ultimately show "ellipse_scan sample_pillow (x0, y0, x1, y1) True 0 ((x0 + x1) div 2, (y0 + y1) div 2)"
    by (simp add: sample_pillow_def ellipse_inside_def u_def v_def A_def B_def)
qed



section \<open>Paths, saving and opening\<close>

lemma resolve_shadow:
  "resolve wd ''../public/shadow.png'' = butlast wd @ [''public'', ''shadow.png'']"
  "resolve wd ''../public'' = butlast wd @ [''public'']"
  "resolve wd ''public/shadow.png'' = wd @ [''public'', ''shadow.png'']"
  by (simp_all add: resolve_def)

lemma resolve_output:
  "resolve wd output_path = wd @ [''public'', ''assets'', ''player'', ''player-walk-spritesheet.png'']"
  "resolve wd ''public/assets/player'' = wd @ [''public'', ''assets'', ''player'']"
  by (simp_all add: resolve_def output_path_def)

lemma first_missing_cong:
  assumes "dirs v = dirs w" "files v = files w"
  shows "first_missing v base cs = first_missing w base cs"
  using assms by (induction cs arbitrary: base) (simp_all add: is_dir_def)

lemma first_missing_None_cong:
  assumes "dirs v = dirs w" "first_missing w base cs = None"
  shows "first_missing v base cs = None"
  using assms by (induction cs arbitrary: base) (auto simp: is_dir_def split: if_splits)

lemma first_missing_error:
  assumes "first_missing w base cs = Some e"
  shows "e = FileNotFoundError \<or> e = NotADirectoryError"
  using assms by (induction cs arbitrary: base) (auto split: if_splits)

lemma print_line_fields [simp]:
  "cwd (print_line s w) = cwd w" "dirs (print_line s w) = dirs w"
  "files (print_line s w) = files w" "truetype (print_line s w) = truetype w"
  "write_error (print_line s w) = write_error w" "read_error (print_line s w) = read_error w"
  "clock (print_line s w) = clock w" "entropy (print_line s w) = entropy w"
  "is_dir (print_line s w) p = is_dir w p"
  by (simp_all add: print_line_def is_dir_def)

lemma lookup_dir_print [simp]: "lookup_dir (print_line s w) p = lookup_dir w p"
  unfolding lookup_dir_def by (rule first_missing_cong) simp_all

lemma Image_save_print [simp]:
  "Image_save L im p (print_line s w) = map_sum id (print_line s) (Image_save L im p w)"
  by (simp add: Image_save_def Let_def split: option.split) (simp add: print_line_def)

lemma Image_open_cong:
  assumes "cwd v = cwd w" "dirs v = dirs w" "files v = files w" "read_error v = read_error w"
  shows "Image_open L p v = Image_open L p w"
proof -
  have l: "lookup_dir v q = lookup_dir w q" for q
    unfolding lookup_dir_def using assms(2,3) by (rule first_missing_cong)
  have d: "is_dir v q = is_dir w q" for q by (simp add: is_dir_def assms(2))
  show ?thesis unfolding Image_open_def assms l d by (rule refl)
qed

lemma Image_open_print [simp]: "Image_open L p (print_line s w) = Image_open L p w"
  by (rule Image_open_cong) simp_all

lemma Image_save_ok:
  assumes "Image_save L im p w = Inr w1"
  shows "w1 = w\<lparr>files := (files w)(resolve (cwd w) p \<mapsto> png_encode L im)\<rparr>"
    and "lookup_dir w (butlast (resolve (cwd w) p)) = None"
    and "\<not> is_dir w (resolve (cwd w) p)"
    and "write_error w (resolve (cwd w) p) = None"
  using assms by (auto simp: Image_save_def Let_def is_dir_def split: if_splits option.splits)

lemma Image_save_Inr:
  assumes "lookup_dir w (butlast (resolve (cwd w) p)) = None" "\<not> is_dir w (resolve (cwd w) p)"
    and "write_error w (resolve (cwd w) p) = None"
  shows "Image_save L im p w = Inr (w\<lparr>files := (files w)(resolve (cwd w) p \<mapsto> png_encode L im)\<rparr>)"
  using assms by (auto simp: Image_save_def Let_def is_dir_def)

lemma Image_save_Inl:
  assumes "lookup_dir w (butlast (resolve (cwd w) p)) = Some e" "resolve (cwd w) p \<noteq> []"
  shows "Image_save L im p w = Inl e"
  using assms by (simp add: Image_save_def Let_def)


lemma Image_save_cong:
  assumes "cwd v = cwd w" "dirs v = dirs w" "files v = files w" "write_error v = write_error w"
  shows "map_sum id files (Image_save L im p v) = map_sum id files (Image_save L im p w)"
proof -
  have l: "lookup_dir v q = lookup_dir w q" for q
    unfolding lookup_dir_def using assms(2,3) by (rule first_missing_cong)
  have d: "is_dir v q = is_dir w q" for q by (simp add: is_dir_def assms(2))
  show ?thesis
    by (simp add: Image_save_def Let_def assms l d split: option.split)
qed

lemma Image_save_again:
  assumes "Image_save L im p w = Inr w1"
    and "cwd v = cwd w" "dirs v = dirs w" "write_error v = write_error w" "files v = files w1"
  shows "Image_save L im p v = Inr v"
proof -
  note ok = Image_save_ok [OF assms(1)]
  have "lookup_dir v (butlast (resolve (cwd v) p)) = None"
    using first_missing_None_cong [OF assms(3)] ok(2) by (simp add: lookup_dir_def assms(2))
  moreover have "\<not> is_dir v (resolve (cwd v) p)"
    using ok(3) by (simp add: is_dir_def assms(2,3))
  moreover have "write_error v (resolve (cwd v) p) = None"
    using ok(4) by (simp add: assms(2,4))
  ultimately have "Image_save L im p v
      = Inr (v\<lparr>files := (files v)(resolve (cwd v) p \<mapsto> png_encode L im)\<rparr>)"
    by (rule Image_save_Inr)
  moreover have "(files v)(resolve (cwd v) p \<mapsto> png_encode L im) = files v"
    by (simp add: assms(2,5) ok(1))
  ultimately show ?thesis by simp
qed

lemma Image_open_saved:
  assumes "Image_save L im p w = Inr w1"
  shows "Image_open L p w1 =
     (case read_error w (resolve (cwd w) p) of
        Some e \<Rightarrow> Inl e
      | None \<Rightarrow> (case png_header L (png_encode L im) of
                   None \<Rightarrow> Inl UnidentifiedImageError
                 | Some h \<Rightarrow> Inr h))"
proof -
  note ok = Image_save_ok [OF assms]
  have f: "cwd w1 = cwd w" "dirs w1 = dirs w" "read_error w1 = read_error w"
    by (simp_all add: ok(1))
  have l: "lookup_dir w1 (butlast (resolve (cwd w) p)) = None"
    using first_missing_None_cong [OF f(2)] ok(2) by (simp add: lookup_dir_def)
  have d: "\<not> is_dir w1 (resolve (cwd w) p)" using ok(3) by (simp add: is_dir_def f)
  have n: "resolve (cwd w) p \<noteq> []" using ok(3) by (auto simp: is_dir_def)
  have g: "files w1 (resolve (cwd w) p) = Some (png_encode L im)" by (simp add: ok(1))
  show ?thesis
    using l d n by (simp add: Image_open_def Let_def f g)
qed

lemma generate_shadow_done:
  assumes "lookup_dir w (resolve (cwd w) ''../public'') = None"
    and "\<not> is_dir w (resolve (cwd w) ''../public/shadow.png'')"
    and "write_error w (resolve (cwd w) ''../public/shadow.png'') = None"
  shows "generate_shadow L w =
     Done (print_line ''Shadow sprite generated: public/shadow.png''
        (w\<lparr>files := (files w)(resolve (cwd w) ''../public/shadow.png''
                        \<mapsto> png_encode L (image_shadow L))\<rparr>))"
proof -
  have "butlast (resolve (cwd w) ''../public/shadow.png'') = resolve (cwd w) ''../public''"
    by (simp add: resolve_shadow butlast_append)
  then have "Image_save L (image_shadow L) ''../public/shadow.png'' w
      = Inr (w\<lparr>files := (files w)(resolve (cwd w) ''../public/shadow.png''
                           \<mapsto> png_encode L (image_shadow L))\<rparr>)"
    using assms by (intro Image_save_Inr) simp_all
  then show ?thesis by (simp add: generate_shadow_def)
qed


section \<open>The sprite sheet is always produced\<close>

lemma body_radius_ok: "\<exists>r. body_radius col = Inr r"
  by (simp add: body_radius_def animation_offset_def truediv_def COLUMNS_def)

lemma getitem_angle_map:
  assumes "0 \<le> row" "row < 8"
  shows "\<exists>a. getitem angle_map row = Inr a"
proof -
  have "row = 0 \<or> row = 1 \<or> row = 2 \<or> row = 3 \<or> row = 4 \<or> row = 5 \<or> row = 6 \<or> row = 7"
    using assms by presburger
  then show ?thesis by (auto simp: getitem_def angle_map_def)
qed

lemma angle_rad_ok:
  assumes "0 \<le> row" "row < 8"
  shows "\<exists>a. angle_rad row = Inr a"
  using getitem_angle_map [OF assms] by (auto simp: angle_rad_def)

lemma draw_frame_ok:
  assumes "0 \<le> row" "row < 8"
  shows "\<exists>im'. draw_frame L w row col im = Inr im'"
proof -
  obtain r where r: "body_radius col = Inr r" using body_radius_ok by blast
  obtain a where a: "angle_rad row = Inr a" using angle_rad_ok [OF assms] by blast
  show ?thesis by (simp add: draw_frame_def Let_def r a arrow_x_def arrow_y_def)
qed

lemma for_each_ok:
  assumes "\<And>x s. x \<in> set xs \<Longrightarrow> \<exists>s'. body x s = Inr s'"
  shows "\<exists>s'. for_each body xs s = Inr s'"
  using assms
proof (induction xs arbitrary: s)
  case Nil
  then show ?case by simp
next
  case (Cons x xs)
  obtain s1 where s1: "body x s = Inr s1" using Cons.prems [of x s] by auto
  have "\<exists>s'. for_each body xs s1 = Inr s'"
    by (rule Cons.IH) (use Cons.prems in auto)
  with s1 show ?case by simp
qed

lemma enumerate_py_index:
  assumes "(i, x) \<in> set (enumerate_py xs)"
  shows "0 \<le> i" "i < int (length xs)"
  using assms by (auto simp: enumerate_py_def in_set_zip)

lemma create_ok: "\<exists>im. create_sprite_sheet L w = Inr im"
  unfolding create_sprite_sheet_def
proof (rule for_each_ok)
  fix x :: "int \<times> string" and s
  assume x: "x \<in> set (enumerate_py DIRECTIONS)"
  obtain row d where rd: "x = (row, d)" by (cases x)
  have row: "0 \<le> row" "row < 8"
    using enumerate_py_index [of row d DIRECTIONS] x by (simp_all add: rd DIRECTIONS_def)
  have "\<exists>s'. for_each (\<lambda>col. draw_frame L w row col) (range_py COLUMNS) s = Inr s'"
    by (rule for_each_ok) (rule draw_frame_ok [OF row])
  then show "\<exists>s'. (case x of (row, direction) \<Rightarrow>
      for_each (\<lambda>col. draw_frame L w row col) (range_py COLUMNS)) s = Inr s'"
    by (simp add: rd)
qed

lemma draw_frame_cong:
  assumes "truetype w = truetype w'"
  shows "draw_frame L w = draw_frame L w'"
proof -
  have lf: "label_font w = label_font w'"
    by (simp add: label_font_def ImageFont_truetype_def assms)
  show ?thesis
    by (intro ext) (unfold draw_frame_def lf, rule refl)
qed

lemma create_cong:
  assumes "truetype w = truetype w'"
  shows "create_sprite_sheet L w = create_sprite_sheet L w'"
  by (simp add: create_sprite_sheet_def draw_frame_cong [OF assms])

lemma create_after_prints:
  assumes "create_sprite_sheet L w = Inr img"
  shows "create_sprite_sheet L (print_line a (print_line b (print_line c (print_line d w)))) = Inr img"
  using create_cong [of "print_line a (print_line b (print_line c (print_line d w)))" w L] assms
  by simp

lemma main_outcome:
  assumes img: "create_sprite_sheet L w = Inr img"
  shows "\<exists>w'. cwd w' = cwd w \<and> dirs w' = dirs w \<and> truetype w' = truetype w \<and>
           write_error w' = write_error w \<and> read_error w' = read_error w \<and>
           clock w' = clock w \<and> entropy w' = entropy w \<and>
           (case Image_save L img output_path w of
              Inl e \<Rightarrow> main L w = Uncaught e w' \<and> files w' = files w
            | Inr w5 \<Rightarrow>
                files w' = files w5 \<and>
                (case Image_open L output_path w5 of
                   Inl e \<Rightarrow> main L w = Uncaught e w'
                 | Inr h \<Rightarrow> main L w = Done w'))"
proof (cases "Image_save L img output_path w")
  case (Inl e)
  then show ?thesis
    by (simp add: main_def Let_def create_after_prints [OF img])
next
  case (Inr w5)
  have f: "cwd w5 = cwd w" "dirs w5 = dirs w" "truetype w5 = truetype w"
    "write_error w5 = write_error w" "read_error w5 = read_error w"
    "clock w5 = clock w" "entropy w5 = entropy w"
    by (simp_all add: Image_save_ok(1) [OF Inr])
  show ?thesis
  proof (cases "Image_open L output_path w5")
    case (Inl e)
    then show ?thesis
      by (simp add: main_def Let_def create_after_prints [OF img] Inr f)
  next
    case h: (Inr h)
    then show ?thesis
      by (cases h) (simp add: main_def Let_def create_after_prints [OF img] Inr f)
  qed
qed

lemma main_save_error:
  assumes "create_sprite_sheet L w = Inr img" "Image_save L img output_path w = Inl e"
  shows "\<exists>w'. main L w = Uncaught e w' \<and> cwd w' = cwd w \<and> dirs w' = dirs w \<and> files w' = files w"
  using main_outcome [OF assms(1)] assms(2) by auto

lemma main_fail:
  assumes "lookup_dir w (butlast (resolve (cwd w) output_path)) = Some e"
  shows "\<exists>w'. main L w = Uncaught e w' \<and> cwd w' = cwd w \<and> dirs w' = dirs w \<and> files w' = files w"
proof -
  obtain img where img: "create_sprite_sheet L w = Inr img" using create_ok by blast
  have "resolve (cwd w) output_path \<noteq> []" by (simp add: resolve_output)
  then have "Image_save L img output_path w = Inl e"
    using assms by (intro Image_save_Inl)
  then show ?thesis by (rule main_save_error [OF img])
qed

lemma main_Done:
  assumes "main L w = Done w1"
  shows "\<exists>img w5 h. create_sprite_sheet L w = Inr img \<and> Image_save L img output_path w = Inr w5 \<and>
           Image_open L output_path w5 = Inr h \<and> files w1 = files w5 \<and>
           cwd w1 = cwd w \<and> dirs w1 = dirs w \<and> truetype w1 = truetype w \<and>
           write_error w1 = write_error w \<and> read_error w1 = read_error w"
proof -
  obtain img where img: "create_sprite_sheet L w = Inr img" using create_ok by blast
  obtain w' where w': "cwd w' = cwd w" "dirs w' = dirs w" "truetype w' = truetype w"
      "write_error w' = write_error w" "read_error w' = read_error w"
      "case Image_save L img output_path w of
         Inl e \<Rightarrow> main L w = Uncaught e w' \<and> files w' = files w
       | Inr w5 \<Rightarrow>
           files w' = files w5 \<and>
           (case Image_open L output_path w5 of
              Inl e \<Rightarrow> main L w = Uncaught e w'
            | Inr h \<Rightarrow> main L w = Done w')"
    using main_outcome [OF img] by blast
  obtain w5 where w5: "Image_save L img output_path w = Inr w5"
    using w'(6) assms by (cases "Image_save L img output_path w") simp_all
  obtain h where h: "Image_open L output_path w5 = Inr h"
    using w'(6) assms w5 by (cases "Image_open L output_path w5") simp_all
  have "w1 = w'" "files w' = files w5" using w'(6) assms w5 h by simp_all
  with w'(1-5) img w5 h show ?thesis by blast
qed

lemma main_again:
  fixes L :: "'f pillow" and w :: "'f world"
  defines "v \<equiv> world_after (main L w)"
  assumes same: "cwd u = cwd v" "dirs u = dirs v" "truetype u = truetype v"
    "write_error u = write_error v" "read_error u = read_error v" "files u = files v"
  shows "files (world_after (main L u)) = files v \<and>
         (main L w = Done v \<longrightarrow> (\<exists>u'. main L u = Done u'))"
proof -
  obtain img where img: "create_sprite_sheet L w = Inr img" using create_ok by blast
  obtain w' where w': "cwd w' = cwd w" "dirs w' = dirs w" "truetype w' = truetype w"
      "write_error w' = write_error w" "read_error w' = read_error w"
      "case Image_save L img output_path w of
         Inl e \<Rightarrow> main L w = Uncaught e w' \<and> files w' = files w
       | Inr w5 \<Rightarrow>
           files w' = files w5 \<and>
           (case Image_open L output_path w5 of
              Inl e \<Rightarrow> main L w = Uncaught e w'
            | Inr h \<Rightarrow> main L w = Done w')"
    using main_outcome [OF img] by blast
  have vw: "v = w'"
    using w'(6) unfolding v_def by (auto split: sum.splits)
  have u: "cwd u = cwd w" "dirs u = dirs w" "truetype u = truetype w"
    "write_error u = write_error w" "read_error u = read_error w" "files u = files w'"
    using same w'(1-5) by (simp_all add: vw)
  have imu: "create_sprite_sheet L u = Inr img"
    using create_cong [OF u(3), of L] img by simp
  obtain u' where u': "case Image_save L img output_path u of
         Inl e \<Rightarrow> main L u = Uncaught e u' \<and> files u' = files u
       | Inr u5 \<Rightarrow>
           files u' = files u5 \<and>
           (case Image_open L output_path u5 of
              Inl e \<Rightarrow> main L u = Uncaught e u'
            | Inr h \<Rightarrow> main L u = Done u')"
    using main_outcome [OF imu] by blast
  show ?thesis
  proof (cases "Image_save L img output_path w")
    case (Inl e)
    have fw: "files w' = files w" and mw: "main L w = Uncaught e w'" using w'(6) Inl by simp_all
    have "map_sum id files (Image_save L img output_path u)
        = map_sum id files (Image_save L img output_path w)"
      by (rule Image_save_cong) (simp_all add: u fw)
    then have "Image_save L img output_path u = Inl e"
      by (cases "Image_save L img output_path u") (simp_all add: Inl)
    then have "main L u = Uncaught e u'" "files u' = files u" using u' by simp_all
    then show ?thesis
      by (simp add: u(6) vw mw)
  next
    case (Inr w5)
    have fw: "files w' = files w5" using w'(6) Inr by simp
    have su: "Image_save L img output_path u = Inr u"
      using Inr u(1,2,4) by (rule Image_save_again) (simp add: u(6) fw)
    have f5: "cwd w5 = cwd w" "dirs w5 = dirs w" "read_error w5 = read_error w"
      by (simp_all add: Image_save_ok(1) [OF Inr])
    have ou: "Image_open L output_path u = Image_open L output_path w5"
      by (rule Image_open_cong) (simp_all add: u fw f5)
    show ?thesis
    proof (cases "Image_open L output_path w5")
      case (Inl e)
      then have "main L u = Uncaught e u'" "files u' = files u" "main L w = Uncaught e w'"
        using u' w'(6) su ou Inr by simp_all
      then show ?thesis by (simp add: u(6) vw)
    next
      case h: (Inr h)
      then have "main L u = Done u'" "files u' = files u"
        using u' su ou by simp_all
      then show ?thesis by (simp add: u(6) vw)
    qed
  qed
qed

lemma set_pixels_size:
  "im_size (set_pixels msk ink im) = im_size im"
  "im_mode (set_pixels msk ink im) = im_mode im"
  by (simp_all add: set_pixels_def)

lemma Draw_size:
  "im_size (Draw_ellipse L xy fill outline width im) = im_size im"
  "im_mode (Draw_ellipse L xy fill outline width im) = im_mode im"
  "im_size (Draw_line L seg fill width im) = im_size im"
  "im_mode (Draw_line L seg fill width im) = im_mode im"
  "im_size (Draw_text L anchor s fill fnt im) = im_size im"
  "im_mode (Draw_text L anchor s fill fnt im) = im_mode im"
  by (simp_all add: Draw_ellipse_def Draw_line_def Draw_text_def Let_def set_pixels_size
      split: prod.splits option.splits)

lemma draw_frame_size:
  assumes "draw_frame L w row col im = Inr im'"
  shows "im_size im' = im_size im \<and> im_mode im' = im_mode im"
proof -
  obtain r where r: "body_radius col = Inr r" using body_radius_ok by blast
  obtain ax where ax: "arrow_x row col = Inr ax"
  proof (cases "arrow_x row col")
    case (Inl e)
    with assms show ?thesis unfolding draw_frame_def Let_def r sum.case by (simp only: sum.case sum.distinct)
  next
    case (Inr a)
    then show ?thesis by (rule that)
  qed
  obtain ay where ay: "arrow_y row col = Inr ay"
  proof (cases "arrow_y row col")
    case (Inl e)
    with assms show ?thesis unfolding draw_frame_def Let_def r ax sum.case by (simp only: sum.case sum.distinct)
  next
    case (Inr a)
    then show ?thesis by (rule that)
  qed
  have "im' = Draw_text L (col * FRAME_WIDTH + 5, row * FRAME_HEIGHT + 5) (str_int col)
      (255, 255, 255, 200) (label_font w)
      (Draw_ellipse L (fsub ax (py_float 3), fsub ay (py_float 3),
                       fadd ax (py_float 3), fadd ay (py_float 3)) (255, 200, 0, 255) None 1
        (Draw_line L ((py_float (center_x col), py_float (center_y row)), (ax, ay))
           (255, 200, 0, 255) 3
          (Draw_ellipse L (fsub (py_float (center_x col)) r, fsub (py_float (center_y row)) r,
                           fadd (py_float (center_x col)) r, fadd (py_float (center_y row)) r)
             (100, 150, 200, 255) (Some (50, 100, 150, 255)) 2 im)))"
    using assms unfolding draw_frame_def Let_def r ax ay sum.case by (rule Inr_inject [symmetric])
  then show ?thesis by (simp only: Draw_size simp_thms)
qed

lemma for_each_invariant:
  assumes "\<And>x s s'. x \<in> set xs \<Longrightarrow> body x s = Inr s' \<Longrightarrow> P s \<Longrightarrow> P s'"
    and "for_each body xs s = Inr s'" "P s"
  shows "P s'"
  using assms
proof (induction xs arbitrary: s)
  case Nil
  then show ?case by simp
next
  case (Cons x xs)
  show ?case
  proof (cases "body x s")
    case (Inl e)
    with Cons.prems(2) show ?thesis by simp
  next
    case (Inr s1)
    have p1: "P s1" using Cons.prems(1) [of x s s1] Inr Cons.prems(3) by simp
    have fe: "for_each body xs s1 = Inr s'" using Cons.prems(2) Inr by simp
    have r: "\<And>y t t'. y \<in> set xs \<Longrightarrow> body y t = Inr t' \<Longrightarrow> P t \<Longrightarrow> P t'"
      using Cons.prems(1) by (meson list.set_intros(2))
    show ?thesis by (rule Cons.IH [OF r fe p1])
  qed
qed

lemma create_size:
  assumes "create_sprite_sheet L w = Inr sheet"
  shows "im_size sheet = (576, 768) \<and> im_mode sheet = ''RGBA''"
proof -
  define P where "P = (\<lambda>im :: image. im_size im = (576, 768) \<and> im_mode im = ''RGBA'')"
  define row_body where
    "row_body = (\<lambda>(row :: int, direction :: string).
        for_each (\<lambda>col. draw_frame L w row col) (range_py COLUMNS))"
  have step: "P s'" if "draw_frame L w row x s = Inr s'" "P s" for row x s s'
    using draw_frame_size [OF that(1)] that(2) by (simp add: P_def)
  have inner: "P s'"
    if a: "for_each (\<lambda>col. draw_frame L w row col) cols s = Inr s'" and b: "P s"
    for row cols s s'
    by (rule for_each_invariant
          [where P = P and body = "\<lambda>col. draw_frame L w row col" and xs = cols, OF _ a b])
       (rule step)
  have outer: "P s'" if a: "row_body x s = Inr s'" and b: "P s" for x s s'
  proof -
    obtain row d where x: "x = (row, d)" by (cases x)
    have "for_each (\<lambda>col. draw_frame L w row col) (range_py COLUMNS) s = Inr s'"
      using a by (simp add: x row_body_def)
    then show ?thesis using b by (rule inner)
  qed
  have start: "P (Image_new ''RGBA'' (SPRITE_SHEET_WIDTH, SPRITE_SHEET_HEIGHT) (0, 0, 0, 0))"
    by (simp add: P_def Image_new_def SPRITE_SHEET_WIDTH_def SPRITE_SHEET_HEIGHT_def
        FRAME_WIDTH_def FRAME_HEIGHT_def COLUMNS_def ROWS_def)
  have run: "for_each row_body (enumerate_py DIRECTIONS)
      (Image_new ''RGBA'' (SPRITE_SHEET_WIDTH, SPRITE_SHEET_HEIGHT) (0, 0, 0, 0)) = Inr sheet"
    using assms unfolding create_sprite_sheet_def row_body_def .
  have "P sheet"
    by (rule for_each_invariant
          [where P = P and body = row_body and xs = "enumerate_py DIRECTIONS", OF _ run start])
       (rule outer)
  then show ?thesis by (simp add: P_def)
qed

section \<open>What a drawing call can change\<close>

lemma c_int_of_int [simp]: "c_int (of_int i) = i"
  by (simp add: c_int_def)

lemma c_int_between:
  assumes "of_int a \<le> x" "x \<le> of_int b"
  shows "a \<le> c_int x" "c_int x \<le> b"
proof -
  have "a \<le> \<lfloor>x\<rfloor>" using assms(1) by (simp add: le_floor_iff)
  moreover have fc: "\<lfloor>x\<rfloor> \<le> \<lceil>x\<rceil>" by (simp add: floor_le_ceiling)
  moreover have "\<lceil>x\<rceil> \<le> b" using assms(2) by (simp add: ceiling_le_iff)
  ultimately have "a \<le> \<lceil>x\<rceil>" "\<lfloor>x\<rfloor> \<le> b" "a \<le> \<lfloor>x\<rfloor>" "\<lceil>x\<rceil> \<le> b" by linarith+
  then show "a \<le> c_int x" "c_int x \<le> b" by (auto simp: c_int_def)
qed

lemma set_pixels_fields [simp]:
  "im_size (set_pixels msk ink im) = im_size im"
  "im_mode (set_pixels msk ink im) = im_mode im"
  "in_image (set_pixels msk ink im) p = in_image im p"
  by (simp_all add: set_pixels_def in_image_def)

lemma set_pixels_outside:
  assumes "\<not> msk p"
  shows "im_pixels (set_pixels msk ink im) p = im_pixels im p"
  using assms by (simp add: set_pixels_def)

lemma Draw_ellipse_outside:
  assumes "pillow_ok L" "\<not> in_box (c_int x0, c_int y0, c_int x1, c_int y1) p"
  shows "im_pixels (Draw_ellipse L (x0, y0, x1, y1) fill outline width im) p = im_pixels im p"
proof -
  have "\<not> ellipse_scan L (c_int x0, c_int y0, c_int x1, c_int y1) f wd p" for f wd
    using assms unfolding pillow_ok_def by blast
  then show ?thesis
    by (simp add: Draw_ellipse_def Let_def set_pixels_outside split: option.split)
qed

lemma Draw_line_outside:
  assumes "pillow_ok L" "\<not> in_box (line_box (c_int x0, c_int y0, c_int x1, c_int y1) width) p"
  shows "im_pixels (Draw_line L ((x0, y0), (x1, y1)) fill width im) p = im_pixels im p"
proof -
  have "\<not> wide_line_scan L (c_int x0, c_int y0, c_int x1, c_int y1) width p"
    using assms unfolding pillow_ok_def by blast
  then show ?thesis by (simp add: Draw_line_def set_pixels_outside)
qed

lemma Draw_text_outside:
  assumes "pillow_ok L" "\<not> in_box (text_extent L fnt s) (fst p - fst xy, snd p - snd xy)"
  shows "im_pixels (Draw_text L xy s fill fnt im) p = im_pixels im p"
proof -
  have "text_paste L fnt s fill (fst p - fst xy, snd p - snd xy) old = old" for old
    using assms unfolding pillow_ok_def by blast
  then show ?thesis by (simp add: Draw_text_def)
qed

lemma math_sin_range: "- 1 \<le> math_sin a" "math_sin a \<le> 1"
  using rnd_between [of "- 1" "sin a" 1] by (simp_all add: math_sin_def)

lemma math_cos_range: "- 1 \<le> math_cos a" "math_cos a \<le> 1"
  using rnd_between [of "- 1" "cos a" 1] by (simp_all add: math_cos_def)

lemma fmul_range:
  assumes "- 1 \<le> s" "s \<le> 1" "0 \<le> k" "k < 2 ^ 53"
  shows "- of_int k \<le> fmul s (of_int k)" "fmul s (of_int k) \<le> of_int k"
proof -
  have "of_int (- k) \<le> s * of_int k" "s * of_int k \<le> of_int k"
    using assms mult_right_mono [of s 1 "of_int k :: real"] mult_right_mono [of "- 1" s "of_int k :: real"]
    by simp_all
  then show "- of_int k \<le> fmul s (of_int k)" "fmul s (of_int k) \<le> of_int k"
    using rnd_between [of "- k" "s * of_int k" k] assms by (simp_all add: fmul_def)
qed

lemma body_radius_range: "\<exists>r. body_radius col = Inr r \<and> 22 \<le> r \<and> r \<le> 28"
proof -
  obtain q where q: "truediv col COLUMNS = Inr q" by (simp add: truediv_def COLUMNS_def)
  define a where "a = fmul (math_sin (fmul (fmul q math_pi) (py_float 2))) (py_float 3)"
  have "- of_int 3 \<le> a \<and> a \<le> of_int 3"
    unfolding a_def using fmul_range [OF math_sin_range, of 3] by (simp add: py_float_eq)
  then have "of_int 22 \<le> 25 + a" "25 + a \<le> of_int 28" by simp_all
  then have "of_int 22 \<le> rnd (25 + a) \<and> rnd (25 + a) \<le> of_int 28"
    by (intro rnd_between) simp_all
  then show ?thesis
    by (simp add: body_radius_def animation_offset_def q a_def fadd_def py_float_eq)
qed

lemma arrow_range:
  assumes row: "0 \<le> row" "row < 8"
  shows "\<exists>ax. arrow_x row col = Inr ax \<and> fadd (py_float (center_x col)) (- 15) \<le> ax
             \<and> ax \<le> fadd (py_float (center_x col)) 15"
    and "\<exists>ay. arrow_y row col = Inr ay \<and> fadd (py_float (center_y row)) (- 15) \<le> ay
             \<and> ay \<le> fadd (py_float (center_y row)) 15"
proof -
  obtain a where a: "angle_rad row = Inr a" using angle_rad_ok [OF row] by blast
  have c: "- of_int 15 \<le> fmul (math_cos a) (of_int 15)" "fmul (math_cos a) (of_int 15) \<le> of_int 15"
    using fmul_range [OF math_cos_range, of 15 a] by simp_all
  have s: "- of_int 15 \<le> fmul (math_sin a) (of_int 15)" "fmul (math_sin a) (of_int 15) \<le> of_int 15"
    using fmul_range [OF math_sin_range, of 15 a] by simp_all
  show "\<exists>ax. arrow_x row col = Inr ax \<and> fadd (py_float (center_x col)) (- 15) \<le> ax
             \<and> ax \<le> fadd (py_float (center_x col)) 15"
    using c by (simp add: arrow_x_def a arrow_length_def py_float_eq fadd_def rnd_mono)
  show "\<exists>ay. arrow_y row col = Inr ay \<and> fadd (py_float (center_y row)) (- 15) \<le> ay
             \<and> ay \<le> fadd (py_float (center_y row)) 15"
    using s by (simp add: arrow_y_def a arrow_length_def py_float_eq fadd_def rnd_mono)
qed

section \<open>The shapes of a frame stay inside its own cell\<close>

lemma c_int_rnd_between:
  assumes "of_int a \<le> v" "v \<le> of_int b" "\<bar>a\<bar> < 2 ^ 53" "\<bar>b\<bar> < 2 ^ 53"
  shows "a \<le> c_int (rnd v)" "c_int (rnd v) \<le> b"
proof -
  have "of_int a \<le> rnd v \<and> rnd v \<le> of_int b" using assms by (rule rnd_between)
  then show "a \<le> c_int (rnd v)" "c_int (rnd v) \<le> b"
    using c_int_between [of a "rnd v" b] by simp_all
qed


lemma arrow_near_center:
  assumes row: "0 \<le> row" "row < 8" and col: "0 \<le> col" "col < 6"
  shows "\<exists>ax ay. arrow_x row col = Inr ax \<and> arrow_y row col = Inr ay \<and>
           of_int (center_x col - 15) \<le> ax \<and> ax \<le> of_int (center_x col + 15) \<and>
           of_int (center_y row - 15) \<le> ay \<and> ay \<le> of_int (center_y row + 15)"
proof -
  have cb: "48 \<le> center_x col" "center_x col \<le> 528" "48 \<le> center_y row" "center_y row \<le> 720"
    using row col by (simp_all add: center_x_def center_y_def FRAME_WIDTH_def FRAME_HEIGHT_def)
  obtain ax where ax: "arrow_x row col = Inr ax" "fadd (py_float (center_x col)) (- 15) \<le> ax"
    "ax \<le> fadd (py_float (center_x col)) 15"
    using arrow_range(1) [OF row] by blast
  obtain ay where ay: "arrow_y row col = Inr ay" "fadd (py_float (center_y row)) (- 15) \<le> ay"
    "ay \<le> fadd (py_float (center_y row)) 15"
    using arrow_range(2) [OF row] by blast
  have "fadd (py_float (center_x col)) (- 15) = of_int (center_x col - 15)"
    "fadd (py_float (center_x col)) 15 = of_int (center_x col + 15)"
    "fadd (py_float (center_y row)) (- 15) = of_int (center_y row - 15)"
    "fadd (py_float (center_y row)) 15 = of_int (center_y row + 15)"
    using cb rnd_of_int [of "center_x col - 15"] rnd_of_int [of "center_x col + 15"]
      rnd_of_int [of "center_y row - 15"] rnd_of_int [of "center_y row + 15"]
      py_float_eq [of "center_x col"] py_float_eq [of "center_y row"]
    by (simp_all add: fadd_def)
  with ax ay show ?thesis by auto
qed


lemma label_fits_in_cell:
  assumes fits: "label_fits L w" and col: "0 \<le> col" "col < 6"
    and p: "in_label L w row col p"
  shows "in_cell row col p"
proof -
  have "col \<in> set (range_py COLUMNS)"
    using col by (auto simp: range_py_def COLUMNS_def intro!: image_eqI [where x = "nat col"])
  with fits obtain l t rr b where ext: "text_extent L (label_font w) (str_int col) = (l, t, rr, b)"
    "- 5 \<le> l" "- 5 \<le> t" "rr \<le> 90" "b \<le> 90"
    unfolding label_fits_def by (cases "text_extent L (label_font w) (str_int col)") auto
  show ?thesis
    using p ext by (auto simp: in_label_def in_cell_def in_box_def FRAME_WIDTH_def FRAME_HEIGHT_def)
qed

lemma draw_frame_parts:
  assumes L: "pillow_ok L"
    and row: "0 \<le> row" "row < 8" and col: "0 \<le> col" "col < 6"
  shows "\<exists>r ax ay.
           body_radius col = Inr r \<and> arrow_x row col = Inr ax \<and> arrow_y row col = Inr ay \<and>
           draw_frame L w row col im =
             Inr (Draw_text L (col * FRAME_WIDTH + 5, row * FRAME_HEIGHT + 5) (str_int col)
                    (255, 255, 255, 200) (label_font w) (frame_shapes L row col r ax ay im)) \<and>
           (\<forall>p. \<not> in_cell row col p
              \<longrightarrow> im_pixels (frame_shapes L row col r ax ay im) p = im_pixels im p)"
proof -
  define cx where "cx = center_x col"
  define cy where "cy = center_y row"
  have cxv: "cx = col * 96 + 48" and cyv: "cy = row * 96 + 48"
    by (simp_all add: cx_def cy_def center_x_def center_y_def FRAME_WIDTH_def FRAME_HEIGHT_def)
  have cb: "48 \<le> cx" "cx \<le> 528" "48 \<le> cy" "cy \<le> 720"
    using row col by (simp_all add: cxv cyv)
  have pf: "py_float cx = of_int cx" "py_float cy = of_int cy" "py_float 3 = 3"
    using cb py_float_eq [of cx] py_float_eq [of cy] py_float_eq [of 3] by simp_all
  obtain r where r: "body_radius col = Inr r" "22 \<le> r" "r \<le> 28"
    using body_radius_range by blast
  obtain ax ay where ax: "arrow_x row col = Inr ax" "of_int (cx - 15) \<le> ax" "ax \<le> of_int (cx + 15)"
    and ay: "arrow_y row col = Inr ay" "of_int (cy - 15) \<le> ay" "ay \<le> of_int (cy + 15)"
    using arrow_near_center [OF row col] unfolding cx_def cy_def by blast
  define s1 where "s1 = Draw_ellipse L
      (fsub (of_int cx) r, fsub (of_int cy) r, fadd (of_int cx) r, fadd (of_int cy) r)
      (100, 150, 200, 255) (Some (50, 100, 150, 255)) 2 im"
  define s2 where "s2 = Draw_line L ((of_int cx, of_int cy), (ax, ay)) (255, 200, 0, 255) 3 s1"
  define s3 where "s3 = Draw_ellipse L (fsub ax 3, fsub ay 3, fadd ax 3, fadd ay 3)
      (255, 200, 0, 255) None 1 s2"
  define s4 where "s4 = Draw_text L (col * 96 + 5, row * 96 + 5) (str_int col)
      (255, 255, 255, 200) (label_font w) s3"
  have res: "draw_frame L w row col im = Inr s4"
    by (simp add: draw_frame_def Let_def r(1) ax(1) ay(1) pf cx_def [symmetric] cy_def [symmetric]
        s1_def s2_def s3_def s4_def FRAME_WIDTH_def FRAME_HEIGHT_def)
  have shapes: "frame_shapes L row col r ax ay im = s3"
    by (simp add: frame_shapes_def Let_def pf cx_def [symmetric] cy_def [symmetric]
        s1_def s2_def s3_def)
  have keep: "im_pixels s3 p = im_pixels im p" if out: "\<not> in_cell row col p" for p
  proof -
    have cell: "\<not> (col * 96 \<le> fst p \<and> fst p \<le> col * 96 + 95 \<and> row * 96 \<le> snd p \<and> snd p \<le> row * 96 + 95)"
      using out by (auto simp: in_cell_def FRAME_WIDTH_def FRAME_HEIGHT_def)
    have b1: "cx - 28 \<le> c_int (fsub (of_int cx) r)" "c_int (fadd (of_int cx) r) \<le> cx + 28"
      "cy - 28 \<le> c_int (fsub (of_int cy) r)" "c_int (fadd (of_int cy) r) \<le> cy + 28"
      unfolding fsub_def fadd_def
      using c_int_rnd_between [of "cx - 28" "of_int cx - r" "cx - 22"]
        c_int_rnd_between [of "cx + 22" "of_int cx + r" "cx + 28"]
        c_int_rnd_between [of "cy - 28" "of_int cy - r" "cy - 22"]
        c_int_rnd_between [of "cy + 22" "of_int cy + r" "cy + 28"] r(2,3) cb
      by simp_all
    have e1: "im_pixels s1 p = im_pixels im p"
      unfolding s1_def
    proof (rule Draw_ellipse_outside [OF L])
      show "\<not> in_box (c_int (fsub (of_int cx) r), c_int (fsub (of_int cy) r),
                c_int (fadd (of_int cx) r), c_int (fadd (of_int cy) r)) p"
        using b1 cell by (auto simp: in_box_def cxv cyv)
    qed
    have b2: "cx - 15 \<le> c_int ax" "c_int ax \<le> cx + 15" "cy - 15 \<le> c_int ay" "c_int ay \<le> cy + 15"
      using c_int_between [OF ax(2,3)] c_int_between [OF ay(2,3)] by simp_all
    have e2: "im_pixels s2 p = im_pixels s1 p"
      unfolding s2_def
    proof (rule Draw_line_outside [OF L])
      show "\<not> in_box (line_box (c_int (of_int cx), c_int (of_int cy), c_int ax, c_int ay) 3) p"
        unfolding c_int_of_int using b2 cell by (auto simp: in_box_def line_box_def cxv cyv)
    qed
    have b3: "cx - 18 \<le> c_int (fsub ax 3)" "c_int (fadd ax 3) \<le> cx + 18"
      "cy - 18 \<le> c_int (fsub ay 3)" "c_int (fadd ay 3) \<le> cy + 18"
      unfolding fsub_def fadd_def
      using c_int_rnd_between [of "cx - 18" "ax - 3" "cx + 12"]
        c_int_rnd_between [of "cx - 12" "ax + 3" "cx + 18"]
        c_int_rnd_between [of "cy - 18" "ay - 3" "cy + 12"]
        c_int_rnd_between [of "cy - 12" "ay + 3" "cy + 18"] ax(2,3) ay(2,3) cb
      by simp_all
    have e3: "im_pixels s3 p = im_pixels s2 p"
      unfolding s3_def
    proof (rule Draw_ellipse_outside [OF L])
      show "\<not> in_box (c_int (fsub ax 3), c_int (fsub ay 3), c_int (fadd ax 3), c_int (fadd ay 3)) p"
        using b3 cell by (auto simp: in_box_def cxv cyv)
    qed
    show ?thesis by (simp add: e1 e2 e3)
  qed
  have "draw_frame L w row col im =
      Inr (Draw_text L (col * FRAME_WIDTH + 5, row * FRAME_HEIGHT + 5) (str_int col)
             (255, 255, 255, 200) (label_font w) (frame_shapes L row col r ax ay im))"
    by (simp add: res s4_def shapes FRAME_WIDTH_def FRAME_HEIGHT_def)
  moreover have "\<forall>p. \<not> in_cell row col p
      \<longrightarrow> im_pixels (frame_shapes L row col r ax ay im) p = im_pixels im p"
    using keep by (simp add: shapes)
  ultimately show ?thesis using r(1) ax(1) ay(1) by blast
qed

lemma draw_frame_changes:
  assumes L: "pillow_ok L"
    and row: "0 \<le> row" "row < 8" and col: "0 \<le> col" "col < 6"
  shows "\<exists>im'. draw_frame L w row col im = Inr im' \<and>
           (\<forall>p. \<not> in_cell row col p \<and> \<not> in_label L w row col p
              \<longrightarrow> im_pixels im' p = im_pixels im p)"
proof -
  obtain r ax ay where res: "draw_frame L w row col im =
      Inr (Draw_text L (col * FRAME_WIDTH + 5, row * FRAME_HEIGHT + 5) (str_int col)
             (255, 255, 255, 200) (label_font w) (frame_shapes L row col r ax ay im))"
    and keep: "\<And>p. \<not> in_cell row col p
      \<Longrightarrow> im_pixels (frame_shapes L row col r ax ay im) p = im_pixels im p"
    using draw_frame_parts [OF L row col, of w im] by blast
  have "im_pixels (Draw_text L (col * FRAME_WIDTH + 5, row * FRAME_HEIGHT + 5) (str_int col)
             (255, 255, 255, 200) (label_font w) (frame_shapes L row col r ax ay im)) p
        = im_pixels im p"
    if out: "\<not> in_cell row col p" and lab: "\<not> in_label L w row col p" for p
  proof -
    have "im_pixels (Draw_text L (col * FRAME_WIDTH + 5, row * FRAME_HEIGHT + 5) (str_int col)
             (255, 255, 255, 200) (label_font w) (frame_shapes L row col r ax ay im)) p
        = im_pixels (frame_shapes L row col r ax ay im) p"
    proof (rule Draw_text_outside [OF L])
      show "\<not> in_box (text_extent L (label_font w) (str_int col))
              (fst p - fst (col * FRAME_WIDTH + 5, row * FRAME_HEIGHT + 5),
               snd p - snd (col * FRAME_WIDTH + 5, row * FRAME_HEIGHT + 5))"
        using lab by (simp add: in_label_def)
    qed
    then show ?thesis using keep [OF out] by simp
  qed
  with res show ?thesis by blast
qed



lemma draw_frame_inside:
  assumes L: "pillow_ok L" and fits: "label_fits L w"
    and row: "0 \<le> row" "row < 8" and col: "0 \<le> col" "col < 6"
  shows "\<exists>im'. draw_frame L w row col im = Inr im' \<and>
           (\<forall>p. \<not> in_cell row col p \<longrightarrow> im_pixels im' p = im_pixels im p)"
  using draw_frame_changes [OF L row col, of w im] label_fits_in_cell [OF fits col, of row]
  by blast

section \<open>The shadow image, second runs and a wide label\<close>

lemma c_int_numeral [simp]: "c_int (numeral n) = numeral n"
  by (simp add: c_int_def)

lemma image_shadow_eq:
  "image_shadow L =
     set_pixels (ellipse_scan L (20, 55, 76, 85) True 0) (0, 0, 0, 100)
       (Image_new ''RGBA'' (96, 96) (0, 0, 0, 0))"
  by (simp add: image_shadow_def shadow_bbox_def shadow_color_def size_shadow_def Draw_ellipse_def
      py_float_eq)

lemma shadow_pixel:
  "im_pixels (image_shadow L) p =
     (if (0 \<le> fst p \<and> fst p < 96 \<and> 0 \<le> snd p \<and> snd p < 96) \<and> ellipse_scan L (20, 55, 76, 85) True 0 p
      then (0, 0, 0, 100) else (0, 0, 0, 0))"
  by (simp add: image_shadow_eq set_pixels_def Image_new_def in_image_def)

lemma generate_shadow_Done:
  assumes "generate_shadow L w = Done w1"
  shows "\<exists>w0. Image_save L (image_shadow L) ''../public/shadow.png'' w = Inr w0 \<and>
           w1 = print_line ''Shadow sprite generated: public/shadow.png'' w0"
  using assms by (auto simp: generate_shadow_def split: sum.splits)

lemma generate_shadow_again:
  fixes L :: "'f pillow" and w :: "'f world"
  defines "v \<equiv> world_after (generate_shadow L w)"
  assumes same: "cwd u = cwd v" "dirs u = dirs v" "write_error u = write_error v"
    "files u = files v"
  shows "files (world_after (generate_shadow L u)) = files v \<and>
         (generate_shadow L w = Done v \<longrightarrow> (\<exists>u'. generate_shadow L u = Done u'))"
proof (cases "Image_save L (image_shadow L) ''../public/shadow.png'' w")
  case (Inl e)
  then have v: "v = w" by (simp add: v_def generate_shadow_def)
  have "map_sum id files (Image_save L (image_shadow L) ''../public/shadow.png'' u)
      = map_sum id files (Image_save L (image_shadow L) ''../public/shadow.png'' w)"
    by (rule Image_save_cong) (simp_all add: same v)
  then have "Image_save L (image_shadow L) ''../public/shadow.png'' u = Inl e"
    by (cases "Image_save L (image_shadow L) ''../public/shadow.png'' u") (simp_all add: Inl)
  then show ?thesis using Inl by (simp add: generate_shadow_def same v)
next
  case (Inr w0)
  then have v: "v = print_line ''Shadow sprite generated: public/shadow.png'' w0"
    by (simp add: v_def generate_shadow_def)
  have f0: "cwd w0 = cwd w" "dirs w0 = dirs w" "write_error w0 = write_error w"
    by (simp_all add: Image_save_ok(1) [OF Inr])
  have "Image_save L (image_shadow L) ''../public/shadow.png'' u = Inr u"
    using Inr by (rule Image_save_again) (simp_all add: same v f0)
  then show ?thesis by (simp add: generate_shadow_def same)
qed

lemma saved_files:
  "(case r of Inl e \<Rightarrow> fs | Inr w1 \<Rightarrow> files w1) = (case map_sum id files r of Inl e \<Rightarrow> fs | Inr f \<Rightarrow> f)"
  by (cases r) simp_all

lemma generate_shadow_files:
  "files (world_after (generate_shadow L w)) =
     (case Image_save L (image_shadow L) ''../public/shadow.png'' w of
        Inl e \<Rightarrow> files w | Inr w1 \<Rightarrow> files w1)"
  by (simp add: generate_shadow_def split: sum.split)

lemma generate_shadow_files_cong:
  assumes "cwd u = cwd w" "dirs u = dirs w" "write_error u = write_error w" "files u = files w"
  shows "files (world_after (generate_shadow L u)) = files (world_after (generate_shadow L w))"
  unfolding generate_shadow_files saved_files
    Image_save_cong [OF assms(1,2,4,3), of L "image_shadow L" "''../public/shadow.png''"] assms(4)
  by (rule refl)

lemma main_files:
  assumes "create_sprite_sheet L w = Inr img"
  shows "files (world_after (main L w)) =
     (case Image_save L img output_path w of Inl e \<Rightarrow> files w | Inr w5 \<Rightarrow> files w5)"
proof -
  obtain w' where w': "case Image_save L img output_path w of
         Inl e \<Rightarrow> main L w = Uncaught e w' \<and> files w' = files w
       | Inr w5 \<Rightarrow>
           files w' = files w5 \<and>
           (case Image_open L output_path w5 of
              Inl e \<Rightarrow> main L w = Uncaught e w'
            | Inr h \<Rightarrow> main L w = Done w')"
    using main_outcome [OF assms] by blast
  show ?thesis
  proof (cases "Image_save L img output_path w")
    case (Inl e)
    then show ?thesis using w' by simp
  next
    case (Inr w5)
    then have "files w' = files w5" "world_after (main L w) = w'"
      using w' by (auto split: sum.splits)
    then show ?thesis by (simp add: Inr)
  qed
qed

lemma main_files_cong:
  assumes "cwd u = cwd w" "dirs u = dirs w" "truetype u = truetype w"
    "write_error u = write_error w" "files u = files w"
  shows "files (world_after (main L u)) = files (world_after (main L w))"
proof -
  obtain img where img: "create_sprite_sheet L w = Inr img" using create_ok by blast
  have imu: "create_sprite_sheet L u = Inr img"
    using create_cong [OF assms(3), of L] img by simp
  show ?thesis
    unfolding main_files [OF img] main_files [OF imu] saved_files
      Image_save_cong [OF assms(1,2,5,4), of L img output_path] assms(5)
    by (rule refl)
qed

lemma sample_header_encode:
  assumes "im_size im = (576, 768)" "im_mode im = ''RGBA''"
  shows "sample_header (sample_encode im) = Some ((576, 768), ''RGBA'')"
  by (simp add: sample_header_def sample_encode_def assms)

lemma main_sample_done:
  "\<exists>w1 sheet. create_sprite_sheet sample_pillow sample_world = Inr sheet \<and>
     main sample_pillow sample_world = Done w1 \<and>
     files w1 = [resolve [''repo''] output_path \<mapsto> sample_encode sheet]"
proof -
  obtain sheet where sheet: "create_sprite_sheet sample_pillow sample_world = Inr sheet"
    using create_ok by blast
  note sz = create_size [OF sheet]
  define w5 where "w5 = sample_world\<lparr>files :=
      (files sample_world)(resolve (cwd sample_world) output_path \<mapsto> png_encode sample_pillow sheet)\<rparr>"
  have s: "Image_save sample_pillow sheet output_path sample_world = Inr w5"
    unfolding w5_def
    by (rule Image_save_Inr)
       (simp_all add: lookup_dir_def is_dir_def resolve_output sample_world_def)
  have h: "png_header sample_pillow (png_encode sample_pillow sheet) = Some ((576, 768), ''RGBA'')"
    using sample_header_encode [of sheet] sz by (simp add: sample_pillow_def)
  have o: "Image_open sample_pillow output_path w5 = Inr ((576, 768), ''RGBA'')"
    unfolding Image_open_saved [OF s] h by (simp add: sample_world_def)
  obtain w' where "files w' = files w5" "main sample_pillow sample_world = Done w'"
    using main_outcome [OF sheet] s o by auto
  then show ?thesis
    using sheet by (auto simp: w5_def sample_world_def sample_pillow_def)
qed


lemma label_font_cases:
  "truetype w ''/System/Library/Fonts/Supplemental/Arial.ttf'' 10 = Inl e \<Longrightarrow>
     label_font w = ImageFont_load_default"
  "truetype w ''/System/Library/Fonts/Supplemental/Arial.ttf'' 10 = Inr f \<Longrightarrow>
     label_font w = Truetype f 10"
  by (simp_all add: label_font_def ImageFont_truetype_def)

section \<open>The claims\<close>




text \<open>
  \<^bold>\<open>C2\<close> (as amended). The shadow image is 96 by 96 pixels in mode RGBA; it is a fully
  transparent image on which one filled ellipse with bounding box \<open>(20, 55)\<close>--\<open>(76, 85)\<close> has
  been drawn in black with alpha 100, without an outline. For every scan converter that
  meets the contract, each pixel outside the bounding box has alpha 0, the pixel at the
  centre of the bounding box, \<open>(48, 70)\<close>, has alpha 100, and the pixel at the centre of the
  image, \<open>(48, 48)\<close>, which lies above the box, has alpha 0, as has every corner pixel.
\<close>

theorem shadow_image_contents:
  assumes "pillow_ok L"
  shows "im_size (image_shadow L) = (96, 96) \<and> im_mode (image_shadow L) = ''RGBA'' \<and>
         image_shadow L =
           set_pixels (ellipse_scan L (20, 55, 76, 85) True 0) (0, 0, 0, 100)
             (Image_new ''RGBA'' (96, 96) (0, 0, 0, 0)) \<and>
         (\<forall>p. alpha (im_pixels (Image_new ''RGBA'' (96, 96) (0, 0, 0, 0)) p) = 0) \<and>
         (\<forall>p. \<not> in_box (20, 55, 76, 85) p \<longrightarrow> alpha (im_pixels (image_shadow L) p) = 0) \<and>
         alpha (im_pixels (image_shadow L) (48, 70)) = 100 \<and>
         alpha (im_pixels (image_shadow L) (48, 48)) = 0 \<and>
         alpha (im_pixels (image_shadow L) (0, 0)) = 0 \<and>
         alpha (im_pixels (image_shadow L) (95, 0)) = 0 \<and>
         alpha (im_pixels (image_shadow L) (0, 95)) = 0 \<and>
         alpha (im_pixels (image_shadow L) (95, 95)) = 0"
proof -
  have out: "alpha (im_pixels (image_shadow L) p) = 0" if "\<not> in_box (20, 55, 76, 85) p" for p
  proof -
    have "\<not> ellipse_scan L (20, 55, 76, 85) True 0 p"
      using assms that unfolding pillow_ok_def by blast
    then show ?thesis by (simp add: shadow_pixel alpha_def)
  qed
  have c: "ellipse_scan L (x0, y0, x1, y1) True 0 ((x0 + x1) div 2, (y0 + y1) div 2)"
    if "x0 + 2 \<le> x1 \<and> y0 + 2 \<le> y1" for x0 y0 x1 y1
    using assms that unfolding pillow_ok_def by blast
  have "ellipse_scan L (20, 55, 76, 85) True 0 (48, 70)"
    using c [of 20 76 55 85] by simp
  then have mid: "alpha (im_pixels (image_shadow L) (48, 70)) = 100"
    by (simp add: shadow_pixel alpha_def)
  have sz: "im_size (image_shadow L) = (96, 96)" "im_mode (image_shadow L) = ''RGBA''"
    by (simp_all add: image_shadow_eq Image_new_def)
  have new: "\<forall>p. alpha (im_pixels (Image_new ''RGBA'' (96, 96) (0, 0, 0, 0)) p) = 0"
    by (simp add: Image_new_def alpha_def)
  have o: "\<forall>p. \<not> in_box (20, 55, 76, 85) p \<longrightarrow> alpha (im_pixels (image_shadow L) p) = 0"
    using out by blast
  have k: "alpha (im_pixels (image_shadow L) (48, 48)) = 0"
    "alpha (im_pixels (image_shadow L) (0, 0)) = 0"
    "alpha (im_pixels (image_shadow L) (95, 0)) = 0"
    "alpha (im_pixels (image_shadow L) (0, 95)) = 0"
    "alpha (im_pixels (image_shadow L) (95, 95)) = 0"
    by (rule out, simp add: in_box_def)+
  show ?thesis
    by (intro conjI) (fact sz image_shadow_eq new o mid k)+
qed

theorem shadow_image_contents_witness:
  "pillow_ok sample_pillow \<and> im_size (image_shadow sample_pillow) = (96, 96) \<and>
   alpha (im_pixels (image_shadow sample_pillow) (48, 70)) = 100 \<and>
   alpha (im_pixels (image_shadow sample_pillow) (48, 48)) = 0 \<and>
   alpha (im_pixels (image_shadow sample_pillow) (95, 95)) = 0"
  using shadow_image_contents [OF sample_pillow_ok] sample_pillow_ok by blast

text \<open>
  The claim as first stated gives the pixel at the image centre alpha 100. The centre
  \<open>(48, 48)\<close> is outside the bounding box, whose rows are 55 to 85, and its alpha is 0.
\<close>

theorem shadow_centre_pixel_transparent:
  "\<not> in_box shadow_bbox (48, 48) \<and>
   alpha (im_pixels (image_shadow sample_pillow) (48, 48)) = 0 \<and>
   alpha (im_pixels (image_shadow sample_pillow) (48, 48)) \<noteq> 100"
  by (simp add: shadow_pixel sample_pillow_def ellipse_inside_def in_box_def shadow_bbox_def alpha_def)

text \<open>
  \<^bold>\<open>C3\<close>. The direction list has exactly 8 entries and the angle table exactly 8 keys, the
  rows 0 to 7. Row by row the names and angles are South 90, South-East 45, East 0,
  North-East 315, North 270, North-West 225, West 180 and South-West 135. Both tables are
  constants: they depend on no argument.
\<close>

theorem direction_table:
  "length DIRECTIONS = 8 \<and> length angle_map = 8 \<and> map fst angle_map = [0, 1, 2, 3, 4, 5, 6, 7] \<and>
   map (\<lambda>(row, direction). (row, direction, getitem angle_map row)) (enumerate_py DIRECTIONS) =
     [(0, ''South'', Inr 90), (1, ''South-East'', Inr 45), (2, ''East'', Inr 0),
      (3, ''North-East'', Inr 315), (4, ''North'', Inr 270), (5, ''North-West'', Inr 225),
      (6, ''West'', Inr 180), (7, ''South-West'', Inr 135)]"
  by (simp add: DIRECTIONS_def angle_map_def enumerate_py_def getitem_def upt_rec)

text \<open>
  \<^bold>\<open>C4\<close>. For every column of \<^verbatim>\<open>range(COLUMNS)\<close>, the arrow end point computed in row 2
  (East) is exactly \<open>(center_x + 15, center_y)\<close> and the one computed in row 4 (North) is
  exactly \<open>(center_x, center_y - 15)\<close>. These are statements about the binary64 results:
  \<^verbatim>\<open>math.cos(math.radians(270))\<close> is not zero, but 15 times it is less than half a unit in
  the last place of \<open>center_x\<close>, so the sum rounds to \<open>center_x\<close>.
\<close>

theorem arrow_endpoints_east_north:
  assumes "col \<in> set (range_py COLUMNS)"
  shows "DIRECTIONS ! 2 = ''East'' \<and> DIRECTIONS ! 4 = ''North'' \<and>
         arrow_x 2 col = Inr (of_int (center_x col + 15)) \<and>
         arrow_y 2 col = Inr (of_int (center_y 2)) \<and>
         arrow_x 4 col = Inr (of_int (center_x col)) \<and>
         arrow_y 4 col = Inr (of_int (center_y 4 - 15))"
proof -
  have c: "0 \<le> col" "col < 6" using assms by (auto simp: range_py_def COLUMNS_def)
  show ?thesis
    using east_end [OF c] north_end [OF c] by (simp add: DIRECTIONS_def)
qed

theorem arrow_endpoints_east_north_witness:
  "0 \<in> set (range_py COLUMNS) \<and>
   arrow_x 2 0 = Inr 63 \<and> arrow_y 2 0 = Inr 240 \<and> arrow_x 4 0 = Inr 48 \<and> arrow_y 4 0 = Inr 417"
proof -
  have m: "0 \<in> set (range_py COLUMNS)" by (simp add: range_py_def COLUMNS_def)
  show ?thesis
    using arrow_endpoints_east_north [OF m] m
    by (simp add: center_x_def center_y_def FRAME_WIDTH_def FRAME_HEIGHT_def)
qed

text \<open>
  \<^bold>\<open>C5\<close>. The body radius computed for column 0 and the one computed for column 3 are both
  exactly 25, hence equal. The radius depends on the column only, so this holds in every
  row. In binary64 \<^verbatim>\<open>math.sin(math.pi)\<close> is not zero, but 3 times it is less than half a
  unit in the last place of 25.
\<close>

theorem body_radius_col0_col3:
  "body_radius 0 = Inr 25 \<and> body_radius 3 = Inr 25 \<and> body_radius 0 = body_radius 3"
  by (simp add: body_radius_0 body_radius_3)

text \<open>
  \<^bold>\<open>C6\<close>. A file is its bytes, and the world has a clock and a random source. Running
  either script a second time in the world the first run left, at any time and with any
  state of the random source, leaves every file byte for byte as the first run left it,
  and succeeds if the first run did. The bytes a successful run writes are the encoding
  of the generated image and nothing else. A run started at another time or with another
  random state leaves the same files. The sprite sheet depends on the world through the
  font lookup alone, which no run changes; the shadow image depends on nothing.
\<close>

theorem rerun_gives_same_files:
  "(\<forall>t r. files (world_after (generate_shadow L
               ((world_after (generate_shadow L w))\<lparr>clock := t, entropy := r\<rparr>)))
           = files (world_after (generate_shadow L w))) \<and>
   (\<forall>t r. files (world_after (main L ((world_after (main L w))\<lparr>clock := t, entropy := r\<rparr>)))
           = files (world_after (main L w))) \<and>
   (\<forall>w1. generate_shadow L w = Done w1 \<longrightarrow>
      files w1 = (files w)(resolve (cwd w) ''../public/shadow.png''
                             \<mapsto> png_encode L (image_shadow L)) \<and>
      (\<forall>t r. \<exists>w2. generate_shadow L (w1\<lparr>clock := t, entropy := r\<rparr>) = Done w2 \<and>
                    files w2 = files w1)) \<and>
   (\<forall>w1. main L w = Done w1 \<longrightarrow>
      (\<exists>sheet. create_sprite_sheet L w = Inr sheet \<and>
          files w1 = (files w)(resolve (cwd w) output_path \<mapsto> png_encode L sheet)) \<and>
      (\<forall>t r. \<exists>w2. main L (w1\<lparr>clock := t, entropy := r\<rparr>) = Done w2 \<and> files w2 = files w1)) \<and>
   (\<forall>t r. files (world_after (generate_shadow L (w\<lparr>clock := t, entropy := r\<rparr>)))
           = files (world_after (generate_shadow L w))) \<and>
   (\<forall>t r. files (world_after (main L (w\<lparr>clock := t, entropy := r\<rparr>)))
           = files (world_after (main L w))) \<and>
   (\<forall>v. create_sprite_sheet L (v\<lparr>truetype := truetype w\<rparr>) = create_sprite_sheet L w)"
proof -
  have s2: "files (world_after (generate_shadow L u)) = files v \<and>
      (generate_shadow L w = Done v \<longrightarrow> (\<exists>u'. generate_shadow L u = Done u'))"
    if "v = world_after (generate_shadow L w)" "u = v\<lparr>clock := t, entropy := r\<rparr>" for v u t r
    unfolding that(1) by (rule generate_shadow_again) (simp_all add: that)
  have m2: "files (world_after (main L u)) = files v \<and>
      (main L w = Done v \<longrightarrow> (\<exists>u'. main L u = Done u'))"
    if "v = world_after (main L w)" "u = v\<lparr>clock := t, entropy := r\<rparr>" for v u t r
    unfolding that(1) by (rule main_again) (simp_all add: that)
  have 1: "\<forall>t r. files (world_after (generate_shadow L
               ((world_after (generate_shadow L w))\<lparr>clock := t, entropy := r\<rparr>)))
           = files (world_after (generate_shadow L w))"
    using s2 by blast
  have 2: "\<forall>t r. files (world_after (main L ((world_after (main L w))\<lparr>clock := t, entropy := r\<rparr>)))
           = files (world_after (main L w))"
    using m2 by blast
  have 3: "files w1 = (files w)(resolve (cwd w) ''../public/shadow.png''
                             \<mapsto> png_encode L (image_shadow L)) \<and>
      (\<forall>t r. \<exists>w2. generate_shadow L (w1\<lparr>clock := t, entropy := r\<rparr>) = Done w2 \<and>
                    files w2 = files w1)"
    if d: "generate_shadow L w = Done w1" for w1
  proof -
    obtain w0 where w0: "Image_save L (image_shadow L) ''../public/shadow.png'' w = Inr w0"
      "w1 = print_line ''Shadow sprite generated: public/shadow.png'' w0"
      using generate_shadow_Done [OF d] by blast
    have f: "files w1 = (files w)(resolve (cwd w) ''../public/shadow.png''
                             \<mapsto> png_encode L (image_shadow L))"
      by (simp add: w0(2) Image_save_ok(1) [OF w0(1)])
    have v: "w1 = world_after (generate_shadow L w)" by (simp add: d)
    have "\<exists>w2. generate_shadow L (w1\<lparr>clock := t, entropy := r\<rparr>) = Done w2 \<and> files w2 = files w1"
      for t r
    proof -
      obtain u' where u': "generate_shadow L (w1\<lparr>clock := t, entropy := r\<rparr>) = Done u'"
        using s2 [OF v refl] d by blast
      have "files (world_after (generate_shadow L (w1\<lparr>clock := t, entropy := r\<rparr>))) = files w1"
        using s2 [OF v refl] by blast
      then show ?thesis by (simp add: u')
    qed
    with f show ?thesis by blast
  qed
  have 4: "(\<exists>sheet. create_sprite_sheet L w = Inr sheet \<and>
          files w1 = (files w)(resolve (cwd w) output_path \<mapsto> png_encode L sheet)) \<and>
      (\<forall>t r. \<exists>w2. main L (w1\<lparr>clock := t, entropy := r\<rparr>) = Done w2 \<and> files w2 = files w1)"
    if d: "main L w = Done w1" for w1
  proof -
    obtain img w5 where m: "create_sprite_sheet L w = Inr img"
      "Image_save L img output_path w = Inr w5" "files w1 = files w5"
      using main_Done [OF d] by blast
    have f: "files w1 = (files w)(resolve (cwd w) output_path \<mapsto> png_encode L img)"
      by (simp add: m(3) Image_save_ok(1) [OF m(2)])
    have v: "w1 = world_after (main L w)" by (simp add: d)
    have "\<exists>w2. main L (w1\<lparr>clock := t, entropy := r\<rparr>) = Done w2 \<and> files w2 = files w1" for t r
    proof -
      obtain u' where u': "main L (w1\<lparr>clock := t, entropy := r\<rparr>) = Done u'"
        using m2 [OF v refl] d by blast
      have "files (world_after (main L (w1\<lparr>clock := t, entropy := r\<rparr>))) = files w1"
        using m2 [OF v refl] by blast
      then show ?thesis by (simp add: u')
    qed
    with f m(1) show ?thesis by blast
  qed
  have 5: "\<forall>t r. files (world_after (generate_shadow L (w\<lparr>clock := t, entropy := r\<rparr>)))
           = files (world_after (generate_shadow L w))"
    by (intro allI generate_shadow_files_cong) simp_all
  have 6: "\<forall>t r. files (world_after (main L (w\<lparr>clock := t, entropy := r\<rparr>)))
           = files (world_after (main L w))"
    by (intro allI main_files_cong) simp_all
  have 7: "\<forall>v. create_sprite_sheet L (v\<lparr>truetype := truetype w\<rparr>) = create_sprite_sheet L w"
    by (intro allI create_cong) simp
  from 3 have c3: "\<forall>w1. generate_shadow L w = Done w1 \<longrightarrow>
      files w1 = (files w)(resolve (cwd w) ''../public/shadow.png''
                             \<mapsto> png_encode L (image_shadow L)) \<and>
      (\<forall>t r. \<exists>w2. generate_shadow L (w1\<lparr>clock := t, entropy := r\<rparr>) = Done w2 \<and>
                    files w2 = files w1)"
    by blast
  from 4 have c4: "\<forall>w1. main L w = Done w1 \<longrightarrow>
      (\<exists>sheet. create_sprite_sheet L w = Inr sheet \<and>
          files w1 = (files w)(resolve (cwd w) output_path \<mapsto> png_encode L sheet)) \<and>
      (\<forall>t r. \<exists>w2. main L (w1\<lparr>clock := t, entropy := r\<rparr>) = Done w2 \<and> files w2 = files w1)"
    by blast
  show ?thesis
    by (intro conjI) (fact 1 2 c3 c4 5 6 7)+
qed

theorem rerun_gives_same_files_witness:
  "\<exists>w1 w2 v1 v2 sheet.
     generate_shadow sample_pillow (sample_world\<lparr>cwd := [''repo'', ''scripts'']\<rparr>) = Done w1 \<and>
     files w1 = [[''repo'', ''public'', ''shadow.png'']
                   \<mapsto> sample_encode (image_shadow sample_pillow)] \<and>
     generate_shadow sample_pillow (w1\<lparr>clock := 86400, entropy := [4, 2]\<rparr>) = Done w2 \<and>
     files w2 = files w1 \<and>
     main sample_pillow sample_world = Done v1 \<and>
     create_sprite_sheet sample_pillow sample_world = Inr sheet \<and>
     files v1 = [[''repo'', ''public'', ''assets'', ''player'', ''player-walk-spritesheet.png'']
                   \<mapsto> sample_encode sheet] \<and>
     main sample_pillow (v1\<lparr>clock := 86400, entropy := [4, 2]\<rparr>) = Done v2 \<and>
     files v2 = files v1"
proof -
  let ?w = "sample_world\<lparr>cwd := [''repo'', ''scripts'']\<rparr>"
  have a: "lookup_dir ?w (resolve (cwd ?w) ''../public'') = None"
    "\<not> is_dir ?w (resolve (cwd ?w) ''../public/shadow.png'')"
    "write_error ?w (resolve (cwd ?w) ''../public/shadow.png'') = None"
    by (simp_all add: lookup_dir_def is_dir_def resolve_shadow sample_world_def)
  obtain w1 where w1: "generate_shadow sample_pillow ?w = Done w1"
    using generate_shadow_done [OF a] by blast
  obtain v1 where v1: "main sample_pillow sample_world = Done v1"
    using main_sample_done by blast
  note sh = rerun_gives_same_files [of sample_pillow ?w]
  note mn = rerun_gives_same_files [of sample_pillow sample_world]
  have fw: "files w1 = (files ?w)(resolve (cwd ?w) ''../public/shadow.png''
                             \<mapsto> png_encode sample_pillow (image_shadow sample_pillow))"
    using sh w1 by blast
  obtain w2 where w2: "generate_shadow sample_pillow (w1\<lparr>clock := 86400, entropy := [4, 2]\<rparr>) = Done w2"
    "files w2 = files w1"
    using sh w1 by blast
  obtain sheet where sheet: "create_sprite_sheet sample_pillow sample_world = Inr sheet"
    "files v1 = (files sample_world)(resolve (cwd sample_world) output_path
                   \<mapsto> png_encode sample_pillow sheet)"
    using mn v1 by blast
  obtain v2 where v2: "main sample_pillow (v1\<lparr>clock := 86400, entropy := [4, 2]\<rparr>) = Done v2"
    "files v2 = files v1"
    using mn v1 by blast
  have fw': "files w1 = [[''repo'', ''public'', ''shadow.png'']
                   \<mapsto> sample_encode (image_shadow sample_pillow)]"
    unfolding fw by (simp add: resolve_shadow sample_world_def) (simp add: sample_pillow_def)
  have fv': "files v1 = [[''repo'', ''public'', ''assets'', ''player'', ''player-walk-spritesheet.png'']
                   \<mapsto> sample_encode sheet]"
    unfolding sheet(2) by (simp add: resolve_output sample_world_def) (simp add: sample_pillow_def)
  show ?thesis using w1 fw' w2 v1 sheet(1) fv' v2 by blast
qed

text \<open>
  \<^bold>\<open>C7\<close>. When the lookup of the system font fails, with whatever exception, the label is
  drawn with the built-in default font, and the frame is drawn exactly as if the lookup
  had failed with any other exception. Drawing a frame of one of the 8 rows never raises,
  and the sprite sheet is always produced. Nothing else is caught: a failing save ends
  the shadow script and the sprite sheet script with that exception.
\<close>

theorem font_lookup_falls_back:
  "(\<forall>e. truetype w ''/System/Library/Fonts/Supplemental/Arial.ttf'' 10 = Inl e \<longrightarrow>
        label_font w = ImageFont_load_default \<and>
        (\<forall>row col im. draw_frame L w row col im
            = draw_frame L (w\<lparr>truetype := (\<lambda>name sz. Inl OSError)\<rparr>) row col im)) \<and>
   (\<forall>row col im. 0 \<le> row \<and> row < 8 \<longrightarrow> (\<exists>im'. draw_frame L w row col im = Inr im')) \<and>
   (\<exists>sheet. create_sprite_sheet L w = Inr sheet) \<and>
   (\<forall>e. Image_save L (image_shadow L) ''../public/shadow.png'' w = Inl e \<longrightarrow>
        generate_shadow L w = Uncaught e w) \<and>
   (\<forall>e sheet. create_sprite_sheet L w = Inr sheet \<and> Image_save L sheet output_path w = Inl e \<longrightarrow>
        (\<exists>w'. main L w = Uncaught e w'))"
proof -
  have a: "label_font w = ImageFont_load_default \<and>
        (\<forall>row col im. draw_frame L w row col im
            = draw_frame L (w\<lparr>truetype := (\<lambda>name sz. Inl OSError)\<rparr>) row col im)"
    if e: "truetype w ''/System/Library/Fonts/Supplemental/Arial.ttf'' 10 = Inl e" for e
  proof -
    have lf: "label_font w = label_font (w\<lparr>truetype := (\<lambda>name sz. Inl OSError)\<rparr>)"
      using e by (simp add: label_font_def ImageFont_truetype_def)
    have "draw_frame L w = draw_frame L (w\<lparr>truetype := (\<lambda>name sz. Inl OSError)\<rparr>)"
      by (intro ext) (unfold draw_frame_def lf, rule refl)
    then show ?thesis using label_font_cases(1) [OF e] by simp
  qed
  have b: "\<exists>im'. draw_frame L w row col im = Inr im'" if "0 \<le> row \<and> row < 8" for row col im
    using draw_frame_ok [of row L w col im] that by simp
  have c: "generate_shadow L w = Uncaught e w"
    if "Image_save L (image_shadow L) ''../public/shadow.png'' w = Inl e" for e
    using that by (simp add: generate_shadow_def)
  have d: "\<exists>w'. main L w = Uncaught e w'"
    if "create_sprite_sheet L w = Inr sheet \<and> Image_save L sheet output_path w = Inl e" for e sheet
    using main_save_error [of L w sheet e] that by blast
  show ?thesis using a b c d create_ok [of L w] by blast
qed

theorem font_lookup_falls_back_witness:
  "truetype sample_world ''/System/Library/Fonts/Supplemental/Arial.ttf'' 10 = Inl OSError \<and>
   label_font sample_world = Default_font \<and>
   (\<exists>im'. draw_frame sample_pillow sample_world 0 0
             (Image_new ''RGBA'' (576, 768) (0, 0, 0, 0)) = Inr im')"
proof -
  have e: "truetype sample_world ''/System/Library/Fonts/Supplemental/Arial.ttf'' 10 = Inl OSError"
    by (simp add: sample_world_def)
  have "label_font sample_world = ImageFont_load_default"
    using font_lookup_falls_back [of sample_world sample_pillow] e by blast
  moreover have "\<exists>im'. draw_frame sample_pillow sample_world 0 0
             (Image_new ''RGBA'' (576, 768) (0, 0, 0, 0)) = Inr im'"
    using font_lookup_falls_back [of sample_world sample_pillow] by simp
  ultimately show ?thesis using e by (simp add: ImageFont_load_default_def)
qed

text \<open>
  \<^bold>\<open>C8\<close>. When the directory \<^verbatim>\<open>public/assets/player\<close> cannot be reached from the invocation
  directory, the sprite sheet script ends with the uncaught exception the save raises:
  FileNotFoundError when a component is missing, NotADirectoryError when a file is in its
  place. It has created neither a directory nor a file.
\<close>

theorem save_fails_without_directory:
  assumes "lookup_dir w (resolve (cwd w) ''public/assets/player'') \<noteq> None"
  shows "\<exists>e w'. lookup_dir w (resolve (cwd w) ''public/assets/player'') = Some e \<and>
           (e = FileNotFoundError \<or> e = NotADirectoryError) \<and>
           main L w = Uncaught e w' \<and> dirs w' = dirs w \<and> files w' = files w"
proof -
  obtain e where e: "lookup_dir w (resolve (cwd w) ''public/assets/player'') = Some e"
    using assms by auto
  have k: "e = FileNotFoundError \<or> e = NotADirectoryError"
    using e first_missing_error unfolding lookup_dir_def by blast
  have "butlast (resolve (cwd w) output_path) = resolve (cwd w) ''public/assets/player''"
    by (simp add: resolve_output butlast_append)
  with e have "lookup_dir w (butlast (resolve (cwd w) output_path)) = Some e" by simp
  from main_fail [OF this, of L] e k show ?thesis by blast
qed

theorem save_fails_without_directory_witness:
  "lookup_dir (sample_world\<lparr>dirs := {[''repo'']}\<rparr>)
       (resolve (cwd (sample_world\<lparr>dirs := {[''repo'']}\<rparr>)) ''public/assets/player'')
     = Some FileNotFoundError \<and>
   (\<exists>w'. main sample_pillow (sample_world\<lparr>dirs := {[''repo'']}\<rparr>) = Uncaught FileNotFoundError w' \<and>
      dirs w' = {[''repo'']} \<and> files w' = Map.empty)"
proof -
  let ?w = "sample_world\<lparr>dirs := {[''repo'']}\<rparr>"
  have a: "lookup_dir ?w (resolve (cwd ?w) ''public/assets/player'') = Some FileNotFoundError"
    by (simp add: lookup_dir_def is_dir_def resolve_output sample_world_def)
  then have n: "lookup_dir ?w (resolve (cwd ?w) ''public/assets/player'') \<noteq> None" by simp
  show ?thesis
    using save_fails_without_directory [OF n, of sample_pillow] a
    by (auto simp: sample_world_def)
qed




text \<open>
  \<^bold>\<open>C10\<close>. Every row index that \<^verbatim>\<open>enumerate(DIRECTIONS)\<close> yields is a key of the angle table,
  so \<^verbatim>\<open>angle_map[row]\<close> returns a value; \<^verbatim>\<open>create_sprite_sheet\<close> never ends with a KeyError and
  always returns an image.
\<close>

theorem angle_lookup_never_fails:
  "(\<forall>rd \<in> set (enumerate_py DIRECTIONS). \<exists>a. getitem angle_map (fst rd) = Inr a) \<and>
   create_sprite_sheet L w \<noteq> Inl KeyError \<and> (\<exists>im. create_sprite_sheet L w = Inr im)"
proof -
  have "\<exists>a. getitem angle_map (fst rd) = Inr a" if "rd \<in> set (enumerate_py DIRECTIONS)" for rd
  proof -
    obtain row d where rd: "rd = (row, d)" by (cases rd)
    have "0 \<le> row" "row < 8"
      using enumerate_py_index [of row d DIRECTIONS] that by (simp_all add: rd DIRECTIONS_def)
    then show ?thesis using getitem_angle_map by (simp add: rd)
  qed
  moreover obtain im where "create_sprite_sheet L w = Inr im" using create_ok by blast
  ultimately show ?thesis by simp
qed

theorem angle_lookup_never_fails_witness:
  "(3, ''North-East'') \<in> set (enumerate_py DIRECTIONS) \<and> getitem angle_map 3 = Inr 315 \<and>
   (\<exists>im. create_sprite_sheet sample_pillow sample_world = Inr im)"
proof -
  have m: "(3, ''North-East'') \<in> set (enumerate_py DIRECTIONS)"
    by (simp add: enumerate_py_def DIRECTIONS_def upt_rec)
  have "\<exists>a. getitem angle_map (fst (3, ''North-East'')) = Inr a"
    using angle_lookup_never_fails [of sample_pillow sample_world] m by blast
  then show ?thesis
    using angle_lookup_never_fails [of sample_pillow sample_world] m
    by (simp add: getitem_def angle_map_def)
qed

end
